theory Spec2Isabelle
  imports Complex_Main "HOL-Library.Sublist"
begin

section \<open>utils.js: searchByExtension\<close>

text \<open>
  \<^verbatim>\<open>path.endsWith(key)\<close> of JavaScript: \<open>key\<close> is the tail of \<open>path\<close>. Strings are
  lists of code units.
\<close>

definition endsWith :: "string \<Rightarrow> string \<Rightarrow> bool" where
  "endsWith s searchString =
     (length searchString \<le> length s \<and>
      drop (length s - length searchString) s = searchString)"

text \<open>
  \<^verbatim>\<open>
  export function searchByExtension(path, extensions) {
    for (const [key, value] of extensions) {
      if (path.endsWith(key)) {
        return [key, value];
      }
    }
  }
  \<close>
  \<open>extensions\<close> is a Map (or any iterable of pairs); the list holds its entries in
  iteration order. Falling off the end of the loop returns \<open>undefined\<close>: \<open>None\<close>.
\<close>

fun searchByExtension :: "string \<Rightarrow> (string \<times> 'v) list \<Rightarrow> (string \<times> 'v) option" where
  "searchByExtension path [] = None"
| "searchByExtension path ((key, value) # rest) =
     (if endsWith path key then Some (key, value) else searchByExtension path rest)"

section \<open>The virtual file layer: class Reader\<close>

text \<open>
  \<^verbatim>\<open>
  interface RemoteFile {
    filename: string;
    url: string;
    disabled?: boolean;
    content?: string;
  }
  \<close>
  An optional field that was never assigned is \<open>undefined\<close>: \<open>None\<close>.
\<close>

record RemoteFile =
  filename :: string
  url :: string
  disabled :: "bool option"
  content :: "string option"

text \<open>
  A promise is modelled by the outcome it settles with; \<open>await\<close> of it returns the value
  or throws the reason. A loader (\<^verbatim>\<open>type Loader = (path: string) => Promise<Data>\<close>)
  either returns a promise or throws before returning one. Two loaders are told apart by
  their identity \<open>ident\<close>, as JavaScript tells two function objects apart.
\<close>

datatype ('e, 'd) promise = Fulfilled 'd | Rejected 'e

datatype ('e, 'd) called = Returns "('e, 'd) promise" | Throws 'e

record ('e, 'd) Loader =
  ident :: nat
  run :: "string \<Rightarrow> ('e, 'd) called"

text \<open>
  \<^verbatim>\<open>
  export default class Reader {
    src: string;
    cache = new Map<string, Promise<Data>>();
    remoteFiles = new Map<string, RemoteFile>();
    remoteDirectories = new Set<string>();
  \<close>
\<close>

record ('e, 'd) Reader =
  src :: string
  cache :: "string \<rightharpoonup> ('e, 'd) promise"
  remoteFiles :: "string \<rightharpoonup> RemoteFile"
  remoteDirectories :: "string set"

text \<open>
  \<^verbatim>\<open>new Exception("Couldn't load this file", { cause, fullpath })\<close>: the message and the
  two properties of the data object.
\<close>

record 'e Exception =
  message :: string
  cause :: 'e
  fullpath :: string

text \<open>
  \<^verbatim>\<open>
  getFullPath(path: string): string {
    const fullPath = posix.join(this.src, path);
    return fullPath.endsWith("/") ? fullPath.slice(0, -1) : fullPath;
  }
  \<close>
  \<open>posix.join\<close> and \<open>posix.dirname\<close> belong to the path library the repository imports;
  they are parameters (\<open>join\<close>, \<open>dirname\<close>) of every function that uses them.
\<close>

definition getFullPath ::
  "(string \<Rightarrow> string \<Rightarrow> string) \<Rightarrow> ('e, 'd, 'z) Reader_scheme \<Rightarrow> string \<Rightarrow> string" where
  "getFullPath join r path =
     (let fullPath = join (src r) path
      in if endsWith fullPath ''/'' then butlast fullPath else fullPath)"

text \<open>
  \<^verbatim>\<open>
  remoteFile(filename: string, url: string) {
    let directory = posix.dirname(filename);
    while (directory !== ".") {
      this.remoteDirectories.add(this.getFullPath(directory));
      directory = posix.dirname(directory);
    }
    this.remoteFiles.set(this.getFullPath(filename), { url, filename });
  }
  \<close>
  The loop ends only when \<open>dirname\<close> reaches \<open>"."\<close>; a run that never does is \<open>None\<close>.
\<close>

partial_function (option) remoteFile_directories ::
  "(string \<Rightarrow> string) \<Rightarrow> (string \<Rightarrow> string) \<Rightarrow> string set \<Rightarrow> string \<Rightarrow> string set option" where
  "remoteFile_directories dirname full dirs directory =
     (if directory \<noteq> ''.''
      then remoteFile_directories dirname full (insert (full directory) dirs) (dirname directory)
      else Some dirs)"

definition remoteFile ::
  "(string \<Rightarrow> string \<Rightarrow> string) \<Rightarrow> (string \<Rightarrow> string) \<Rightarrow> ('e, 'd) Reader \<Rightarrow> string \<Rightarrow> string
     \<Rightarrow> ('e, 'd) Reader option" where
  "remoteFile join dirname r filename_arg url_arg =
     (case remoteFile_directories dirname (getFullPath join r) (remoteDirectories r)
             (dirname filename_arg) of
        None \<Rightarrow> None
      | Some dirs \<Rightarrow>
          Some (r\<lparr>remoteDirectories := dirs,
                  remoteFiles := (remoteFiles r)(getFullPath join r filename_arg \<mapsto>
                    \<lparr>filename = filename_arg, url = url_arg, disabled = None, content = None\<rparr>)\<rparr>))"

text \<open>
  \<^verbatim>\<open>
  deleteCache(path: string) {
    const fullPath = this.getFullPath(path);
    this.cache.delete(fullPath);
  }
  clearCache() {
    this.cache.clear();
  }
  \<close>
\<close>

definition deleteCache ::
  "(string \<Rightarrow> string \<Rightarrow> string) \<Rightarrow> ('e, 'd) Reader \<Rightarrow> string \<Rightarrow> ('e, 'd) Reader" where
  "deleteCache join r path = r\<lparr>cache := (cache r)(getFullPath join r path := None)\<rparr>"

definition clearCache :: "('e, 'd) Reader \<Rightarrow> ('e, 'd) Reader" where
  "clearCache r = r\<lparr>cache := Map.empty\<rparr>"

text \<open>
  \<open>Deno.FileInfo\<close>, with the fields getInfo writes. \<open>Deno.stat\<close> is the local file
  system, a parameter: it resolves with the info of the file, or rejects with
  \<open>Deno.errors.NotFound\<close> or with another error.
\<close>

record FileInfo =
  isFile :: bool
  isDirectory :: bool
  isSymlink :: bool
  size_bytes :: nat
  mtime :: "nat option"
  atime :: "nat option"
  birthtime :: "nat option"
  dev :: "nat option"
  ino :: "nat option"
  mode :: "nat option"
  nlink :: "nat option"
  uid :: "nat option"
  gid :: "nat option"
  rdev :: "nat option"
  blksize :: "nat option"
  blocks :: "nat option"

datatype 'x stat_result = StatInfo FileInfo | NotFound | StatError 'x

text \<open>
  \<^verbatim>\<open>
  async getInfo(path: string): Promise<Deno.FileInfo | undefined> {
    const fullPath = this.getFullPath(path);
    const remoteFile = this.remoteFiles.get(fullPath);
    const remoteDirectory = this.remoteDirectories.has(fullPath);
    try {
      const info = await Deno.stat(this.getFullPath(path));
      // The file exists locally, disable the remote file
      if (remoteFile) {
        remoteFile.disabled = true;
      }
      return info;
    } catch (err) {
      if (err instanceof Deno.errors.NotFound) {
        // The file doesn't exist locally, enable the remote file
        if (remoteFile || remoteDirectory) {
          if (remoteFile) {
            remoteFile.disabled = false;
          }
          return {
            isFile: !!remoteFile, isDirectory: !remoteFile, isSymlink: false, size: 0,
            mtime: null, atime: null, birthtime: null, dev: null, ino: null, mode: null,
            nlink: null, uid: null, gid: null, rdev: null, blksize: null, blocks: null,
          };
        }
        return;
      }
      throw err;
    }
  }
  \<close>
  The RemoteFile object is held by the map only, so the assignment to its \<open>disabled\<close>
  field is an update of the map at \<open>fullPath\<close>. The result is the new reader and either
  the rethrown error (\<open>Inl\<close>) or the info, \<open>None\<close> for \<open>undefined\<close>.
\<close>

definition set_disabled ::
  "('e, 'd) Reader \<Rightarrow> string \<Rightarrow> RemoteFile \<Rightarrow> bool \<Rightarrow> ('e, 'd) Reader" where
  "set_disabled r fullPath rf b =
     r\<lparr>remoteFiles := (remoteFiles r)(fullPath \<mapsto> rf\<lparr>disabled := Some b\<rparr>)\<rparr>"

definition getInfo ::
  "(string \<Rightarrow> string \<Rightarrow> string) \<Rightarrow> (string \<Rightarrow> 'x stat_result) \<Rightarrow> ('e, 'd) Reader \<Rightarrow> string
     \<Rightarrow> ('e, 'd) Reader \<times> ('x + FileInfo option)" where
  "getInfo join stat r path =
     (let fullPath = getFullPath join r path;
          remoteFile = remoteFiles r fullPath;
          remoteDirectory = (fullPath \<in> remoteDirectories r)
      in case stat (getFullPath join r path) of
           StatInfo info \<Rightarrow>
             (case remoteFile of
                Some rf \<Rightarrow> (set_disabled r fullPath rf True, Inr (Some info))
              | None \<Rightarrow> (r, Inr (Some info)))
         | NotFound \<Rightarrow>
             if remoteFile \<noteq> None \<or> remoteDirectory
             then (case remoteFile of Some rf \<Rightarrow> set_disabled r fullPath rf False | None \<Rightarrow> r,
                   Inr (Some \<lparr>isFile = (remoteFile \<noteq> None), isDirectory = (remoteFile = None),
                     isSymlink = False, size_bytes = 0, mtime = None, atime = None,
                     birthtime = None, dev = None, ino = None, mode = None, nlink = None,
                     uid = None, gid = None, rdev = None, blksize = None, blocks = None\<rparr>))
             else (r, Inr None)
         | StatError err \<Rightarrow> (r, Inl err))"

text \<open>
  \<^verbatim>\<open>
  async read(path: string, loader: Loader): Promise<Data> {
    const fullpath = this.getFullPath(path);
    const remote = this.remoteFiles.get(fullpath);
    const loadPath = (!remote || remote.disabled) ? fullpath : remote.url;
    try {
      if (!this.cache.has(fullpath)) {
        this.cache.set(fullpath, loader(loadPath));
      }
      return await this.cache.get(fullpath)!;
    } catch (cause) {
      throw new Exception("Couldn't load this file", { cause, fullpath });
    }
  }
  \<close>
  An async function runs without interruption up to its first \<open>await\<close>: the test of the
  cache, the call of the loader and the write of the cache are one step, so calls that
  overlap in time are a sequence of such steps. What the call finally gives its caller
  is the outcome of the promise it awaits. The result of the model is the new reader, the
  loader invocations the call made (the loader's identity and the path it was given), and
  the value returned (\<open>Inr\<close>) or the exception thrown (\<open>Inl\<close>).
\<close>

definition loadPath_of :: "('e, 'd) Reader \<Rightarrow> string \<Rightarrow> string" where
  "loadPath_of r fullpath_arg =
     (case remoteFiles r fullpath_arg of
        None \<Rightarrow> fullpath_arg
      | Some remote \<Rightarrow> if disabled remote = Some True then fullpath_arg else url remote)"

definition await_cached :: "string \<Rightarrow> ('e, 'd) promise \<Rightarrow> 'e Exception + 'd" where
  "await_cached fullpath_arg p =
     (case p of
        Fulfilled d \<Rightarrow> Inr d
      | Rejected c \<Rightarrow>
          Inl \<lparr>message = ''Couldn't load this file'', cause = c, fullpath = fullpath_arg\<rparr>)"

definition read ::
  "(string \<Rightarrow> string \<Rightarrow> string) \<Rightarrow> ('e, 'd) Reader \<Rightarrow> string \<Rightarrow> ('e, 'd) Loader
     \<Rightarrow> ('e, 'd) Reader \<times> (nat \<times> string) list \<times> ('e Exception + 'd)" where
  "read join r path loader =
     (let fullpath_v = getFullPath join r path;
          loadPath = loadPath_of r fullpath_v
      in case cache r fullpath_v of
           Some p \<Rightarrow> (r, [], await_cached fullpath_v p)
         | None \<Rightarrow>
             (case run loader loadPath of
                Throws c \<Rightarrow>
                  (r, [(ident loader, loadPath)],
                   Inl \<lparr>message = ''Couldn't load this file'', cause = c, fullpath = fullpath_v\<rparr>)
              | Returns p \<Rightarrow>
                  (r\<lparr>cache := (cache r)(fullpath_v \<mapsto> p)\<rparr>, [(ident loader, loadPath)],
                   await_cached fullpath_v p)))"

text \<open>
  A sequence of calls of read on one reader, in the order their first steps run: the
  invocations of all the calls in order, and the result of each call.
\<close>

fun reads ::
  "(string \<Rightarrow> string \<Rightarrow> string) \<Rightarrow> ('e, 'd) Reader \<Rightarrow> (string \<times> ('e, 'd) Loader) list
     \<Rightarrow> ('e, 'd) Reader \<times> (nat \<times> string) list \<times> ('e Exception + 'd) list" where
  "reads join r [] = (r, [], [])"
| "reads join r ((path, loader) # rest) =
     (case read join r path loader of
        (r1, inv1, res1) \<Rightarrow>
          (case reads join r1 rest of
             (r2, inv2, res2) \<Rightarrow> (r2, inv1 @ inv2, res1 # res2)))"

section \<open>Decimal strings\<close>

text \<open>
  The decimal digits of a number, as \<open>String(n)\<close> and a template literal print a
  non-negative integer.
\<close>

definition digit_char :: "nat \<Rightarrow> char" where
  "digit_char d = ''0123456789'' ! d"

fun show_nat :: "nat \<Rightarrow> string" where
  "show_nat n = (if n < 10 then [digit_char n] else show_nat (n div 10) @ [digit_char (n mod 10)])"

declare show_nat.simps [simp del]

section \<open>utils.js: merge, on values\<close>

text \<open>
  JavaScript values as trees: the primitives, functions (by identity, with no
  properties of their own), arrays, and plain objects as the list of their own
  enumerable properties in insertion order, each key once. Numbers are integers here
  (NaN, which is falsy too, is left out). Property reads see own properties only: for a
  key that a fresh object inherits from Object.prototype as a function the code takes
  the same branch as for \<open>undefined\<close>, and the key \<open>__proto__\<close>, which JavaScript routes
  to the prototype, is outside the model. JavaScript lists integer-like keys before the
  others; nothing below depends on the order of the keys.
\<close>

datatype jsval =
  JUndefined | JNull | JBool bool | JNum int | JStr string | JFun nat
  | JArr "jsval list" | JObj "(string \<times> jsval) list"

fun js_typeof :: "jsval \<Rightarrow> string" where
  "js_typeof JUndefined = ''undefined''"
| "js_typeof JNull = ''object''"
| "js_typeof (JBool b) = ''boolean''"
| "js_typeof (JNum n) = ''number''"
| "js_typeof (JStr s) = ''string''"
| "js_typeof (JFun f) = ''function''"
| "js_typeof (JArr xs) = ''object''"
| "js_typeof (JObj kvs) = ''object''"

fun truthy :: "jsval \<Rightarrow> bool" where
  "truthy JUndefined = False"
| "truthy JNull = False"
| "truthy (JBool b) = b"
| "truthy (JNum n) = (n \<noteq> 0)"
| "truthy (JStr s) = (s \<noteq> [])"
| "truthy (JFun f) = True"
| "truthy (JArr xs) = True"
| "truthy (JObj kvs) = True"

fun isArray :: "jsval \<Rightarrow> bool" where
  "isArray (JArr xs) = True"
| "isArray v = False"

text \<open>
  The own enumerable properties of a value, as the spread \<open>{ ...v }\<close> copies them and
  \<open>Object.entries(v)\<close> lists them: the properties of an object, the elements of an
  array under their indices, the characters of a string under their indices, nothing
  for the other values.
\<close>

definition indexed :: "'a list \<Rightarrow> (string \<times> 'a) list" where
  "indexed xs = zip (map show_nat [0..<length xs]) xs"

fun own_entries :: "jsval \<Rightarrow> (string \<times> jsval) list" where
  "own_entries (JObj kvs) = kvs"
| "own_entries (JArr xs) = indexed xs"
| "own_entries (JStr s) = indexed (map (\<lambda>c. JStr [c]) s)"
| "own_entries v = []"

text \<open>\<open>merged[key]\<close> and \<open>merged[key] = val\<close> on a plain object.\<close>

fun get_prop :: "(string \<times> jsval) list \<Rightarrow> string \<Rightarrow> jsval" where
  "get_prop [] key = JUndefined"
| "get_prop ((k, v) # rest) key = (if k = key then v else get_prop rest key)"

fun set_prop :: "(string \<times> 'v) list \<Rightarrow> string \<Rightarrow> 'v \<Rightarrow> (string \<times> 'v) list" where
  "set_prop [] key val = [(key, val)]"
| "set_prop ((k, v) # rest) key val =
     (if k = key then (k, val) # rest else (k, v) # set_prop rest key val)"

text \<open>The measure of the recursion of merge: the part of \<open>user\<close> still to be visited.\<close>

fun weight :: "jsval \<Rightarrow> nat" and weights :: "jsval list \<Rightarrow> nat"
  and eweights :: "(string \<times> jsval) list \<Rightarrow> nat" where
  "weight (JArr xs) = Suc (weights xs)"
| "weight (JObj kvs) = Suc (eweights kvs)"
| "weight (JStr s) = Suc (length s)"
| "weight JUndefined = 1"
| "weight JNull = 1"
| "weight (JBool b) = 1"
| "weight (JNum n) = 1"
| "weight (JFun f) = 1"
| "weights [] = 0"
| "weights (x # xs) = Suc (weight x + weights xs)"
| "eweights [] = 0"
| "eweights ((k, v) # kvs) = Suc (weight v + eweights kvs)"

fun pending_weight :: "(string \<times> jsval) list \<Rightarrow> nat" where
  "pending_weight [] = 0"
| "pending_weight ((k, v) # rest) =
     Suc ((if js_typeof v = ''object'' then weight v else 0) + pending_weight rest)"

lemma pending_weight_le: "pending_weight kvs \<le> eweights kvs"
  by (induction kvs) auto

lemma pending_weight_zip: "pending_weight (zip ks xs) \<le> weights xs"
proof (induction xs arbitrary: ks)
  case Nil
  then show ?case by simp
next
  case (Cons x xs)
  show ?case
  proof (cases ks)
    case Nil
    then show ?thesis by simp
  next
    case (Cons k ks')
    with Cons.IH [of ks'] show ?thesis by simp
  qed
qed

lemma pending_weight_chars: "pending_weight (zip ks (map (\<lambda>c. JStr [c]) s)) \<le> length s"
  by (induction s arbitrary: ks) (auto simp: zip_Cons le_SucI split: list.splits)

lemma pending_weight_own_entries: "pending_weight (own_entries u) < weight u"
proof (cases u)
  case (JStr s)
  then show ?thesis
    using pending_weight_chars [of "map show_nat [0..<length s]" s]
    by (simp add: indexed_def)
next
  case (JArr xs)
  then show ?thesis
    using pending_weight_zip [of "map show_nat [0..<length xs]" xs]
    by (simp add: indexed_def)
next
  case (JObj kvs)
  then show ?thesis
    using pending_weight_le [of kvs] by simp
qed simp_all

text \<open>
  \<^verbatim>\<open>
  export function merge(defaults, user) {
    const merged = { ...defaults };
    if (!user) {
      return merged;
    }
    for (const [key, value] of Object.entries(user)) {
      if (
        typeof merged[key] === "object" && typeof value === "object" &&
        !Array.isArray(merged[key])
      ) {
        merged[key] = merge(merged[key], value);
        continue;
      }
      merged[key] = value;
    }
    return merged;
  }
  \<close>
  \<open>merge_entries\<close> is the loop: the object \<open>merged\<close> so far and the entries of \<open>user\<close>
  still to come.
\<close>

function merge :: "jsval \<Rightarrow> jsval \<Rightarrow> jsval"
  and merge_entries ::
    "(string \<times> jsval) list \<Rightarrow> (string \<times> jsval) list \<Rightarrow> (string \<times> jsval) list" where
  "merge defaults user =
     (let merged = own_entries defaults
      in if \<not> truthy user then JObj merged
         else JObj (merge_entries merged (own_entries user)))"
| "merge_entries merged [] = merged"
| "merge_entries merged ((key, val) # rest) =
     (if js_typeof (get_prop merged key) = ''object'' \<and> js_typeof val = ''object''
         \<and> \<not> isArray (get_prop merged key)
      then merge_entries (set_prop merged key (merge (get_prop merged key) val)) rest
      else merge_entries (set_prop merged key val) rest)"
  by pat_completeness auto
termination
  by (relation "measure (\<lambda>x. case x of Inl (d, u) \<Rightarrow> weight u | Inr (m, es) \<Rightarrow> pending_weight es)")
    (auto simp: pending_weight_own_entries)

declare merge.simps(1) [simp del]

section \<open>utils.js: merge, on the heap\<close>

text \<open>
  The same function with its objects in a heap, to see what it writes. A value is a
  primitive or a reference to an object or array of the heap; an address is an index of
  the heap, and a new object gets the next index. No reference of a JavaScript program
  dangles; \<open>obj_at\<close> gives an address outside the heap an object without properties.
\<close>

datatype hval = HUndefined | HNull | HBool bool | HNum int | HStr string | HFun nat | HRef nat

datatype hobj = HObject "(string \<times> hval) list" | HArray "hval list"

type_synonym heap = "hobj list"

definition obj_at :: "heap \<Rightarrow> nat \<Rightarrow> hobj" where
  "obj_at h a = (if a < length h then h ! a else HObject [])"

fun h_typeof :: "hval \<Rightarrow> string" where
  "h_typeof HUndefined = ''undefined''"
| "h_typeof HNull = ''object''"
| "h_typeof (HBool b) = ''boolean''"
| "h_typeof (HNum n) = ''number''"
| "h_typeof (HStr s) = ''string''"
| "h_typeof (HFun f) = ''function''"
| "h_typeof (HRef a) = ''object''"

fun h_truthy :: "hval \<Rightarrow> bool" where
  "h_truthy HUndefined = False"
| "h_truthy HNull = False"
| "h_truthy (HBool b) = b"
| "h_truthy (HNum n) = (n \<noteq> 0)"
| "h_truthy (HStr s) = (s \<noteq> [])"
| "h_truthy (HFun f) = True"
| "h_truthy (HRef a) = True"

fun h_isArray :: "heap \<Rightarrow> hval \<Rightarrow> bool" where
  "h_isArray h (HRef a) = (case obj_at h a of HArray xs \<Rightarrow> True | HObject kvs \<Rightarrow> False)"
| "h_isArray h v = False"

fun h_own_entries :: "heap \<Rightarrow> hval \<Rightarrow> (string \<times> hval) list" where
  "h_own_entries h (HRef a) = (case obj_at h a of HObject kvs \<Rightarrow> kvs | HArray xs \<Rightarrow> indexed xs)"
| "h_own_entries h (HStr s) = indexed (map (\<lambda>c. HStr [c]) s)"
| "h_own_entries h v = []"

fun h_get_prop :: "(string \<times> hval) list \<Rightarrow> string \<Rightarrow> hval" where
  "h_get_prop [] key = HUndefined"
| "h_get_prop ((k, v) # rest) key = (if k = key then v else h_get_prop rest key)"

definition heap_get :: "heap \<Rightarrow> nat \<Rightarrow> string \<Rightarrow> hval" where
  "heap_get h a key = h_get_prop (h_own_entries h (HRef a)) key"

definition heap_set :: "heap \<Rightarrow> nat \<Rightarrow> string \<Rightarrow> hval \<Rightarrow> heap" where
  "heap_set h a key val =
     (case obj_at h a of
        HObject kvs \<Rightarrow> h[a := HObject (set_prop kvs key val)]
      | HArray xs \<Rightarrow> h)"

text \<open>
  merge on the heap. \<open>{ ...defaults }\<close> allocates the object \<open>merged\<close> with a copy of
  the own properties of \<open>defaults\<close> (the values are copied as they are, references
  included); \<open>merged[key] = \<dots>\<close> writes that object. The heap may hold cycles, on
  which the recursion of merge has no end: \<open>fuel\<close> is the depth of calls available, and
  \<open>None\<close> is a run that exceeds it.
\<close>

fun hmerge :: "nat \<Rightarrow> heap \<Rightarrow> hval \<Rightarrow> hval \<Rightarrow> (heap \<times> hval) option"
  and hmerge_entries :: "nat \<Rightarrow> heap \<Rightarrow> nat \<Rightarrow> (string \<times> hval) list \<Rightarrow> heap option" where
  "hmerge 0 h defaults user = None"
| "hmerge (Suc fuel) h defaults user =
     (let merged = length h;
          h1 = h @ [HObject (h_own_entries h defaults)]
      in if \<not> h_truthy user then Some (h1, HRef merged)
         else (case hmerge_entries fuel h1 merged (h_own_entries h1 user) of
                 None \<Rightarrow> None
               | Some h2 \<Rightarrow> Some (h2, HRef merged)))"
| "hmerge_entries fuel h merged [] = Some h"
| "hmerge_entries fuel h merged ((key, val) # rest) =
     (if h_typeof (heap_get h merged key) = ''object'' \<and> h_typeof val = ''object''
         \<and> \<not> h_isArray h (heap_get h merged key)
      then (case hmerge fuel h (heap_get h merged key) val of
              None \<Rightarrow> None
            | Some (h1, r) \<Rightarrow> hmerge_entries fuel (heap_set h1 merged key r) merged rest)
      else hmerge_entries fuel (heap_set h merged key val) merged rest)"

text \<open>
  \<open>depth_ok n h v\<close>: the object-typed values reachable from \<open>v\<close> through properties
  end within \<open>n\<close> levels, and every reference on the way is an address of the heap.
\<close>

fun depth_ok :: "nat \<Rightarrow> heap \<Rightarrow> hval \<Rightarrow> bool" where
  "depth_ok 0 h v = False"
| "depth_ok (Suc n) h (HRef a) =
     (a < length h \<and>
      list_all (\<lambda>kv. h_typeof (snd kv) = ''object'' \<longrightarrow> depth_ok n h (snd kv))
        (h_own_entries h (HRef a)))"
| "depth_ok (Suc n) h v = True"


definition example_heap :: heap where
  "example_heap =
     [HObject [(''options'', HRef 1), (''extensions'', HRef 4)], HObject [(''x'', HNum 1)],
      HObject [(''options'', HRef 3)], HObject [(''y'', HNum 2)], HArray [HStr ''.html'']]"

section \<open>utils.js: concurrent\<close>

text \<open>
  \<^verbatim>\<open>
  export async function concurrent(iterable, iteratorFn, limit = 200) {
    const executing = [];
    for await (const item of iterable) {
      const p = iteratorFn(item).then(() =>
        executing.splice(executing.indexOf(p), 1)
      );
      executing.push(p);
      if (executing.length >= limit) {
        await Promise.race(executing);
      }
    }
    await Promise.all(executing);
  }
  \<close>
  JavaScript runs one piece of code at a time, and each piece runs until it awaits or
  returns. An execution of concurrent is therefore a sequence of steps of four kinds:
  the body of the loop between two awaits; the promise of an invocation of iteratorFn
  settling; the \<open>then\<close> callback of a fulfilled invocation; and the function resuming
  after \<open>Promise.race\<close> or \<open>Promise.all\<close> has settled. The model is a state machine
  over these steps, run on a schedule that says which step comes next; the theorems
  hold for every schedule.

  An invocation, numbered in the order of the calls, is \<open>Running\<close> while its promise is
  pending, \<open>Returned\<close> when the promise has fulfilled and the callback has not run yet,
  \<open>Removed\<close> when the callback has spliced \<open>p\<close> out of \<open>executing\<close> (so \<open>p\<close> is
  fulfilled), and \<open>Failed\<close> when the promise has rejected (so \<open>p\<close> is rejected and the
  callback never runs). The function itself is at the head of the loop, awaits a race
  or the final \<open>Promise.all\<close> over the promises that \<open>executing\<close> held at the call,
  or has resolved or thrown.
\<close>

datatype Status = Running | Returned | Removed | Failed

datatype Main = Looping | Racing "nat list" | Joining "nat list" | Resolved | Thrown

record 'a Concurrent =
  items :: "'a list"
  tasks :: "Status list"
  executing :: "nat list"
  main :: Main

datatype Event = Next | Throw | Settle nat bool | Callback nat | Resume bool

text \<open>
  The parameter \<open>limit = 200\<close> is any JavaScript number: a finite one, which is a
  rational, or \<open>NaN\<close>, \<open>Infinity\<close> or \<open>-Infinity\<close>; it is 200 when the caller gives
  none. \<open>length_reaches n limit\<close> is the test \<open>executing.length >= limit\<close> for an array
  of length \<open>n\<close>; a comparison with \<open>NaN\<close> is false.
\<close>

datatype JsNumber = Number rat | NaN | PlusInfinity | MinusInfinity

definition limit_or_default :: "JsNumber option \<Rightarrow> JsNumber" where
  "limit_or_default l = (case l of None \<Rightarrow> Number 200 | Some n \<Rightarrow> n)"

fun length_reaches :: "nat \<Rightarrow> JsNumber \<Rightarrow> bool" where
  "length_reaches n (Number q) = (q \<le> of_nat n)"
| "length_reaches n NaN = False"
| "length_reaches n PlusInfinity = False"
| "length_reaches n MinusInfinity = True"

definition start :: "'a list \<Rightarrow> 'a Concurrent" where
  "start xs = \<lparr>items = xs, tasks = [], executing = [], main = Looping\<rparr>"

text \<open>
  \<open>executing.splice(executing.indexOf(p), 1)\<close>: \<open>indexOf\<close> is \<open>-1\<close> for a promise that
  is not in the array, and \<open>splice(-1, 1)\<close> removes the last element.
\<close>

definition splice_out :: "nat \<Rightarrow> nat list \<Rightarrow> nat list" where
  "splice_out i xs = (if i \<in> set xs then remove1 i xs else butlast xs)"

text \<open>
  One step. \<open>Next\<close>: the loop takes the next item, calls iteratorFn, pushes \<open>p\<close> and
  either goes on or awaits the race; with no item left it awaits \<open>Promise.all\<close>.
  \<open>Throw\<close>: the iterable or the call of iteratorFn throws, and concurrent rejects.
  \<open>Settle i ok\<close>: the promise of invocation \<open>i\<close> fulfils (\<open>ok\<close>) or rejects.
  \<open>Callback i\<close>: the \<open>then\<close> callback of invocation \<open>i\<close> runs. \<open>Resume ok\<close>: the
  awaited race or \<open>Promise.all\<close> has fulfilled (\<open>ok\<close>: one promise of the race is
  fulfilled, or all promises of \<open>Promise.all\<close> are) or rejected (one of its promises is
  rejected). A step that cannot happen in the state is \<open>None\<close>.
\<close>

fun step :: "JsNumber \<Rightarrow> Event \<Rightarrow> 'a Concurrent \<Rightarrow> 'a Concurrent option" where
  "step limit Next s =
     (if main s \<noteq> Looping then None
      else case items s of
             [] \<Rightarrow> Some (s\<lparr>main := Joining (executing s)\<rparr>)
           | item # rest \<Rightarrow>
               (let p = length (tasks s);
                    executing' = executing s @ [p]
                in Some (s\<lparr>items := rest, tasks := tasks s @ [Running], executing := executing',
                           main := (if length_reaches (length executing') limit
                                    then Racing executing' else Looping)\<rparr>)))"
| "step limit Throw s = (if main s \<noteq> Looping then None else Some (s\<lparr>main := Thrown\<rparr>))"
| "step limit (Settle i ok) s =
     (if i < length (tasks s) \<and> tasks s ! i = Running
      then Some (s\<lparr>tasks := (tasks s)[i := (if ok then Returned else Failed)]\<rparr>)
      else None)"
| "step limit (Callback i) s =
     (if i < length (tasks s) \<and> tasks s ! i = Returned
      then Some (s\<lparr>tasks := (tasks s)[i := Removed], executing := splice_out i (executing s)\<rparr>)
      else None)"
| "step limit (Resume ok) s =
     (case main s of
        Racing snapshot \<Rightarrow>
          if ok then (if list_ex (\<lambda>i. tasks s ! i = Removed) snapshot
                      then Some (s\<lparr>main := Looping\<rparr>) else None)
          else (if list_ex (\<lambda>i. tasks s ! i = Failed) snapshot
                then Some (s\<lparr>main := Thrown\<rparr>) else None)
      | Joining snapshot \<Rightarrow>
          if ok then (if list_all (\<lambda>i. tasks s ! i = Removed) snapshot
                      then Some (s\<lparr>main := Resolved\<rparr>) else None)
          else (if list_ex (\<lambda>i. tasks s ! i = Failed) snapshot
                then Some (s\<lparr>main := Thrown\<rparr>) else None)
      | _ \<Rightarrow> None)"

fun exec :: "JsNumber \<Rightarrow> Event list \<Rightarrow> 'a Concurrent \<Rightarrow> 'a Concurrent option" where
  "exec limit [] s = Some s"
| "exec limit (e # es) s = (case step limit e s of None \<Rightarrow> None | Some s' \<Rightarrow> exec limit es s')"

text \<open>The number of invocations of iteratorFn that are pending.\<close>

definition pending :: "'a Concurrent \<Rightarrow> nat" where
  "pending s = length (filter (\<lambda>st. st = Running) (tasks s))"

text \<open>
  The invocations whose promise \<open>p\<close> is not fulfilled yet, and the invariant of the
  state machine, which holds whatever the limit is.
\<close>

definition live :: "'a Concurrent \<Rightarrow> nat set" where
  "live s = {i. i < length (tasks s) \<and> tasks s ! i \<noteq> Removed}"

definition conc_inv :: "'a Concurrent \<Rightarrow> bool" where
  "conc_inv s \<longleftrightarrow>
     distinct (executing s) \<and> set (executing s) = live s
     \<and> (case main s of
          Looping \<Rightarrow> True
        | Racing snapshot \<Rightarrow> distinct snapshot \<and> live s \<subseteq> set snapshot
        | Joining snapshot \<Rightarrow> items s = [] \<and> live s \<subseteq> set snapshot
        | Resolved \<Rightarrow> items s = [] \<and> executing s = []
        | Thrown \<Rightarrow> True)"

text \<open>
  \<open>capped c s\<close>: the array \<open>executing\<close> holds at most \<open>c\<close> promises, and fewer at the
  head of the loop.
\<close>

definition capped :: "nat \<Rightarrow> 'a Concurrent \<Rightarrow> bool" where
  "capped c s \<longleftrightarrow>
     length (executing s) \<le> c
     \<and> (case main s of
          Looping \<Rightarrow> length (executing s) < c
        | Racing snapshot \<Rightarrow> length snapshot \<le> c
        | _ \<Rightarrow> True)"

text \<open>A run of three items with limit 2, to its end.\<close>

definition three_items_run :: "Event list" where
  "three_items_run =
     [Next, Next, Settle 0 True, Callback 0, Resume True, Next, Settle 1 True, Settle 2 True,
      Callback 2, Callback 1, Resume True, Next, Resume True]"

section \<open>core/site.ts: the build and update cycles\<close>

text \<open>
  A page, as far as site.ts reads it: \<open>page.src.entry\<close> (an entry of the file system,
  by its identity), \<open>page.outputPath\<close>, \<open>page.data.url\<close> (a string, or \<open>false\<close>),
  \<open>page.data.ondemand\<close> (by its truth value) and \<open>page.content\<close>, which is
  \<^verbatim>\<open>string | Uint8Array | undefined\<close> (the type getContent returns \<open>page.content\<close> at).
  A static file has an entry and an output path.
\<close>

datatype Url = UrlFalse | UrlString string

datatype Content = Undefined | Text string | Bytes "nat list"

record Page =
  page_entry :: nat
  page_outputPath :: string
  data_url :: Url
  data_ondemand :: bool
  page_content :: Content

record StaticFile =
  file_entry :: nat
  file_outputPath :: string

text \<open>
  \<open>!page.content\<close>: \<open>undefined\<close> and the empty string are falsy; every object is
  truthy, a Uint8Array of length zero too.
\<close>

fun truthy_content :: "Content \<Rightarrow> bool" where
  "truthy_content Undefined = False"
| "truthy_content (Text t) = (t \<noteq> [])"
| "truthy_content (Bytes b) = True"

text \<open>
  A value inside a template literal: \<open>undefined\<close> prints as the word, a Uint8Array as
  its elements joined by commas.
\<close>

fun join_comma :: "string list \<Rightarrow> string" where
  "join_comma [] = []"
| "join_comma [x] = x"
| "join_comma (x # y # rest) = x @ '','' @ join_comma (y # rest)"

fun content_string :: "Content \<Rightarrow> string" where
  "content_string Undefined = ''undefined''"
| "content_string (Text t) = t"
| "content_string (Bytes b) = join_comma (map show_nat b)"

fun url_string :: "Url \<Rightarrow> string" where
  "url_string UrlFalse = ''false''"
| "url_string (UrlString u) = u"

text \<open>
  The arrays of the site that a cycle reads and writes: \<open>site.pages\<close>,
  \<open>site.onDemandPages\<close>, \<open>site.files\<close>, and \<open>scanned\<close>, the array \<open>_pages\<close> that
  \<open>source.build\<close> returned in this cycle and that the beforeRender event carries.
\<close>

record Site =
  pages :: "Page list"
  onDemandPages :: "Page list"
  files :: "StaticFile list"
  scanned :: "Page list"

datatype EventType =
  beforeBuild | afterBuild | beforeUpdate | afterUpdate | beforeRender | afterRender | beforeSave

text \<open>
  What a cycle does to its collaborators, in the order it does it: the events it
  dispatches, the calls of the writer, of the logger, of the file system and of the
  caches.
\<close>

datatype Effect =
  Dispatched EventType
  | WriterClear
  | WriterRemoveFiles "string list"
  | WriterSavePages "Page list"
  | WriterCopyFiles "StaticFile list"
  | LoggerWarn string
  | LoggerLog
  | FsInit
  | FsUpdate string
  | FormatsDeleteCache string
  | SearcherDeleteCache

text \<open>
  The collaborators of the site (events.ts, source.ts, renderer.ts, processors.ts,
  writer.ts and fs.ts are other modules) are parameters:
  \<^item> \<open>listeners\<close>: what \<open>events.dispatchEvent\<close> does for an event type: the listeners
    hold the site and may change its arrays; the result is \<open>False\<close> when a listener
    returned \<open>false\<close>;
  \<^item> \<open>source_build\<close>: the pages and static files \<open>source.build\<close> returns, for a
    build (\<open>None\<close>) or for an update with its changed files;
  \<^item> \<open>renderPages\<close>: the pages and on-demand pages \<open>renderer.renderPages\<close> pushes into
    the two emptied arrays;
  \<^item> \<open>componentsExtraCode\<close>: the pages \<open>source.getComponentsExtraCode()\<close> yields;
  \<^item> \<open>processors_run\<close>: \<open>site.pages\<close> after \<open>processors.run\<close>;
  \<^item> \<open>writer_savePages\<close>, \<open>writer_copyFiles\<close>: the pages and files the writer
    reports as written;
  \<^item> \<open>fs_update\<close>: the entry \<open>fs.update(file)\<close> returns, \<open>None\<close> for \<open>undefined\<close>;
  \<^item> \<open>emptyDest\<close>: the option of that name.

  Each collaborator is taken to return. One that throws ends the cycle at that call:
  the effects of such a cycle are a prefix of the effects given here.
\<close>

record Env =
  emptyDest :: bool
  listeners :: "EventType \<Rightarrow> Site \<Rightarrow> Site \<times> bool"
  source_build :: "string list option \<Rightarrow> Page list \<times> StaticFile list"
  renderPages :: "Page list \<Rightarrow> Page list \<times> Page list"
  componentsExtraCode :: "Page list"
  processors_run :: "Page list \<Rightarrow> Page list"
  writer_savePages :: "Page list \<Rightarrow> Page list"
  writer_copyFiles :: "StaticFile list \<Rightarrow> StaticFile list"
  fs_update :: "string \<Rightarrow> nat option"

type_synonym Cycle = "Site \<times> Effect list"

definition effect :: "Effect \<Rightarrow> Cycle \<Rightarrow> Cycle" where
  "effect e st = (fst st, snd st @ [e])"

text \<open>
  \<^verbatim>\<open>
  dispatchEvent(event: SiteEvent): Promise<boolean> {
    return this.events.dispatchEvent(event);
  }
  \<close>
\<close>

definition dispatchEvent :: "Env \<Rightarrow> EventType \<Rightarrow> Cycle \<Rightarrow> Cycle \<times> bool" where
  "dispatchEvent env ty st =
     (case listeners env ty (fst st) of
        (s', ok) \<Rightarrow> ((s', snd st @ [Dispatched ty]), ok))"

text \<open>
  \<^verbatim>\<open>
  for (const extra of this.source.getComponentsExtraCode()) {
    const exists = this.pages.find((page) => page.data.url === extra.data.url);
    // If it's duplicated, merge the content
    if (exists) {
      exists.content = `${exists.content}\n${extra.content}`;
    } else {
      this.pages.push(extra);
    }
  }
  \<close>
\<close>

fun merge_extra :: "Page \<Rightarrow> Page list \<Rightarrow> Page list" where
  "merge_extra extra [] = [extra]"
| "merge_extra extra (page # rest) =
     (if data_url page = data_url extra
      then page\<lparr>page_content :=
             Text (content_string (page_content page) @ [CHR 0x0A] @ content_string (page_content extra))\<rparr>
           # rest
      else page # merge_extra extra rest)"

fun add_extra_code :: "Page list \<Rightarrow> Page list \<Rightarrow> Page list" where
  "add_extra_code [] ps = ps"
| "add_extra_code (extra # extras) ps = add_extra_code extras (merge_extra extra ps)"

text \<open>
  \<^verbatim>\<open>
  // Remove empty pages and ondemand pages
  this.pages.splice(0, this.pages.length,
    ...this.pages.filter((page) => {
      if (page.data.url === false) {
        return false;
      }
      const shouldSkip = !page.content || page.data.ondemand;
      if (shouldSkip) {
        this.logger.warn(
          `Skipped page ${page.data.url} (${
            page.data.ondemand ? "page is build only on demand" : "file content is empty"
          })`,
        );
      }
      return !shouldSkip;
    }),
  );
  \<close>
  \<open>filter_pages\<close> gives the pages kept and the warnings, both in the order of the pages.
\<close>

definition shouldSkip :: "Page \<Rightarrow> bool" where
  "shouldSkip page = (\<not> truthy_content (page_content page) \<or> data_ondemand page)"

definition skip_warning :: "Page \<Rightarrow> string" where
  "skip_warning page =
     ''Skipped page '' @ url_string (data_url page) @ '' ('' @
       (if data_ondemand page then ''page is build only on demand'' else ''file content is empty'')
       @ '')''"

fun filter_pages :: "Page list \<Rightarrow> Page list \<times> string list" where
  "filter_pages [] = ([], [])"
| "filter_pages (page # rest) =
     (case filter_pages rest of
        (kept, warnings) \<Rightarrow>
          if data_url page = UrlFalse then (kept, warnings)
          else if shouldSkip page then (kept, skip_warning page # warnings)
          else (page # kept, warnings))"

definition filterStep :: "Cycle \<Rightarrow> Cycle" where
  "filterStep st =
     (case filter_pages (pages (fst st)) of
        (kept, warnings) \<Rightarrow> ((fst st)\<lparr>pages := kept\<rparr>, snd st @ map LoggerWarn warnings))"

text \<open>
  \<^verbatim>\<open>
  async #buildPages(pages: Page[]): Promise<boolean> {
    if (await this.dispatchEvent({ type: "beforeRender", pages }) === false) {
      return false;
    }
    // Render the pages
    this.pages.splice(0);
    this.onDemandPages.splice(0);
    await this.renderer.renderPages(pages, this.pages, this.onDemandPages);
    // Add extra code generated by the components
    ... (the loop above)
    // Remove empty pages and ondemand pages
    ... (the filter above)
    if (await this.events.dispatchEvent({ type: "afterRender", pages: this.pages }) === false) {
      return false;
    }
    // Run the processors to the pages
    await this.processors.run(this.pages);
    return await this.dispatchEvent({ type: "beforeSave" });
  }
  \<close>
\<close>

definition renderStep :: "Env \<Rightarrow> Cycle \<Rightarrow> Cycle" where
  "renderStep env st =
     (case renderPages env (scanned (fst st)) of
        (rendered, ondemand) \<Rightarrow>
          ((fst st)\<lparr>pages := add_extra_code (componentsExtraCode env) rendered,
                    onDemandPages := ondemand\<rparr>,
           snd st))"

definition processStep :: "Env \<Rightarrow> Cycle \<Rightarrow> Cycle" where
  "processStep env st = ((fst st)\<lparr>pages := processors_run env (pages (fst st))\<rparr>, snd st)"

definition buildPages :: "Env \<Rightarrow> Cycle \<Rightarrow> Cycle \<times> bool" where
  "buildPages env st =
     (case dispatchEvent env beforeRender st of
        (st1, ok1) \<Rightarrow>
          if \<not> ok1 then (st1, False)
          else (case dispatchEvent env afterRender (filterStep (renderStep env st1)) of
                  (st2, ok2) \<Rightarrow>
                    if \<not> ok2 then (st2, False)
                    else dispatchEvent env beforeSave (processStep env st2)))"

text \<open>
  \<^verbatim>\<open>
  async build(): Promise<void> {
    if (await this.dispatchEvent({ type: "beforeBuild" }) === false) {
      return;
    }
    if (this.options.emptyDest) {
      await this.clear();
    }
    // Load source files
    this.fs.init();
    // Get the site content
    const isDev = Deno.env.get("LUME_ENV") === "development";
    const [_pages, _staticFiles] = await this.source.build(this.globalComponents,
      [(_, page) => !page?.data.draft || isDev]);
    // Save static files into site.files
    this.files.splice(0, this.files.length, ..._staticFiles);
    // Stop if the build is cancelled
    if (await this.#buildPages(_pages) === false) {
      return;
    }
    // Save the pages and copy static files in the dest folder
    const pages = await this.writer.savePages(this.pages);
    const staticFiles = await this.writer.copyFiles(this.files);
    this.logger.log();
    await this.dispatchEvent({ type: "afterBuild", pages, staticFiles });
  }
  \<close>
  \<open>clear()\<close> is \<open>await this.writer.clear()\<close>.
\<close>

definition scanStep :: "Env \<Rightarrow> string list option \<Rightarrow> Cycle \<Rightarrow> Cycle" where
  "scanStep env changed st =
     (case source_build env changed of
        (ps, staticFiles) \<Rightarrow> ((fst st)\<lparr>scanned := ps, files := staticFiles\<rparr>, snd st))"

definition saveStep :: "Cycle \<Rightarrow> Cycle" where
  "saveStep st =
     effect (WriterCopyFiles (files (fst st))) (effect (WriterSavePages (pages (fst st))) st)"

definition build :: "Env \<Rightarrow> Cycle \<Rightarrow> Cycle" where
  "build env st =
     (case dispatchEvent env beforeBuild st of
        (st1, ok1) \<Rightarrow>
          if \<not> ok1 then st1
          else (case buildPages env
                       (scanStep env None
                          (effect FsInit (if emptyDest env then effect WriterClear st1 else st1))) of
                  (st2, ok2) \<Rightarrow>
                    if \<not> ok2 then st2
                    else fst (dispatchEvent env afterBuild (effect LoggerLog (saveStep st2)))))"

text \<open>
  \<^verbatim>\<open>
  async update(files: Set<string>): Promise<void> {
    if (await this.dispatchEvent({ type: "beforeUpdate", files }) === false) {
      return;
    }
    this.searcher.deleteCache();
    // Reload the changed files
    for (const file of files) {
      // Delete the file from the cache
      this.formats.deleteCache(file);
      const entry = this.fs.update(file);
      if (!entry) {
        continue;
      }
      // Remove pages or static files depending on this entry
      const pages = this.pages.filter((page) => page.src.entry === entry)
        .map((page) => page.outputPath) as string[];
      const files = this.files.filter((file) => file.entry === entry)
        .map((file) => file.outputPath) as string[];
      this.writer.removeFiles([...pages, ...files]);
    }
    // Get the site content
    const isDev = Deno.env.get("LUME_ENV") === "development";
    const [_pages, _staticFiles] = await this.source.build(this.globalComponents,
      [(_, page) => !page?.data.draft || isDev, this.scopes.getFilter(files)]);
    // Build the pages and save static files into site.files
    this.files.splice(0, this.files.length, ..._staticFiles);
    if (await this.#buildPages(_pages) === false) {
      return;
    }
    // Save the pages and copy static files in the dest folder
    const pages = await this.writer.savePages(this.pages);
    const staticFiles = await this.writer.copyFiles(this.files);
    if (pages.length || staticFiles.length) {
      this.logger.log();
    }
    await this.dispatchEvent({ type: "afterUpdate", files, pages, staticFiles });
  }
  \<close>
  The set of changed files is the list of its elements in iteration order.
\<close>

fun reload :: "Env \<Rightarrow> string list \<Rightarrow> Cycle \<Rightarrow> Cycle" where
  "reload env [] st = st"
| "reload env (file # rest) st =
     (let st1 = effect (FsUpdate file) (effect (FormatsDeleteCache file) st)
      in case fs_update env file of
           None \<Rightarrow> reload env rest st1
         | Some entry \<Rightarrow>
             reload env rest
               (effect (WriterRemoveFiles
                  (map page_outputPath (filter (\<lambda>page. page_entry page = entry) (pages (fst st1)))
                   @ map file_outputPath (filter (\<lambda>f. file_entry f = entry) (files (fst st1)))))
                  st1))"

definition update :: "Env \<Rightarrow> string list \<Rightarrow> Cycle \<Rightarrow> Cycle" where
  "update env changed st =
     (case dispatchEvent env beforeUpdate st of
        (st1, ok1) \<Rightarrow>
          if \<not> ok1 then st1
          else (case buildPages env
                       (scanStep env (Some changed)
                          (reload env changed (effect SearcherDeleteCache st1))) of
                  (st2, ok2) \<Rightarrow>
                    if \<not> ok2 then st2
                    else let st3 = saveStep st2
                         in fst (dispatchEvent env afterUpdate
                              (if writer_savePages env (pages (fst st2)) \<noteq> []
                                  \<or> writer_copyFiles env (files (fst st2)) \<noteq> []
                               then effect LoggerLog st3 else st3))))"

text \<open>
  The state of a cycle at its call of \<open>#buildPages\<close>, where beforeRender is dispatched:
  the argument of \<open>buildPages\<close> in \<open>build\<close> and in \<open>update\<close> above, reached when
  beforeBuild (beforeUpdate) was not cancelled.
\<close>

definition build_at_render :: "Env \<Rightarrow> Cycle \<Rightarrow> Cycle" where
  "build_at_render env st =
     scanStep env None
       (effect FsInit
          (if emptyDest env then effect WriterClear (fst (dispatchEvent env beforeBuild st))
           else fst (dispatchEvent env beforeBuild st)))"

definition update_at_render :: "Env \<Rightarrow> string list \<Rightarrow> Cycle \<Rightarrow> Cycle" where
  "update_at_render env changed st =
     scanStep env (Some changed)
       (reload env changed (effect SearcherDeleteCache (fst (dispatchEvent env beforeUpdate st))))"

text \<open>The effects the cancellation claim speaks of.\<close>

fun reaches_writer :: "Effect \<Rightarrow> bool" where
  "reaches_writer (WriterSavePages ps) = True"
| "reaches_writer (WriterCopyFiles fs) = True"
| "reaches_writer e = False"

fun after_event :: "Effect \<Rightarrow> bool" where
  "after_event (Dispatched ty) = (ty = afterRender \<or> ty = afterBuild \<or> ty = afterUpdate)"
| "after_event e = False"

text \<open>The page sets a cycle handed to \<open>writer.savePages\<close>, in order.\<close>

fun saved :: "Effect list \<Rightarrow> Page list list" where
  "saved [] = []"
| "saved (WriterSavePages ps # rest) = ps # saved rest"
| "saved (e # rest) = saved rest"

text \<open>The pages the filter keeps.\<close>

definition publishable :: "Page \<Rightarrow> bool" where
  "publishable page = (data_url page \<noteq> UrlFalse \<and> \<not> shouldSkip page)"

text \<open>
  The pages the drop policy speaks of: url false, content undefined or the empty
  string, or flagged ondemand.
\<close>

definition dropped_kind :: "Page \<Rightarrow> bool" where
  "dropped_kind page =
     (data_url page = UrlFalse \<or> page_content page = Undefined \<or> page_content page = Text []
      \<or> data_ondemand page)"

text \<open>Concrete values for the examples on the cycles.\<close>

definition home_page :: Page where
  "home_page =
     \<lparr>page_entry = 1, page_outputPath = ''/index.html'', data_url = UrlString ''/'',
      data_ondemand = False, page_content = Text ''<h1>Home</h1>''\<rparr>"

definition hidden_page :: Page where
  "hidden_page = home_page\<lparr>page_entry := 2, data_url := UrlFalse\<rparr>"

definition empty_page :: Page where
  "empty_page = home_page\<lparr>page_entry := 3, data_url := UrlString ''/empty/'', page_content := Text []\<rparr>"

definition lazy_page :: Page where
  "lazy_page = home_page\<lparr>page_entry := 4, data_url := UrlString ''/lazy/'', data_ondemand := True\<rparr>"

definition empty_binary_page :: Page where
  "empty_binary_page =
     home_page\<lparr>page_entry := 5, page_outputPath := ''/pixel.png'', data_url := UrlString ''/pixel.png'',
       page_content := Bytes []\<rparr>"

definition fresh_site :: Site where
  "fresh_site = \<lparr>pages = [], onDemandPages = [], files = [], scanned = []\<rparr>"

definition plain_env :: Env where
  "plain_env =
     \<lparr>emptyDest = True,
      listeners = (\<lambda>ty s. (s, True)),
      source_build = (\<lambda>changed. ([home_page, hidden_page, empty_page, lazy_page], [])),
      renderPages = (\<lambda>ps. (ps, [])),
      componentsExtraCode = [],
      processors_run = (\<lambda>ps. ps),
      writer_savePages = (\<lambda>ps. ps),
      writer_copyFiles = (\<lambda>fs. fs),
      fs_update = (\<lambda>file. None)\<rparr>"

text \<open>
  A page with url false and no content, and an afterRender listener that adds a page
  to \<open>site.pages\<close>, as a plugin does with \<^verbatim>\<open>site.pages.push(feed)\<close>.
\<close>

definition hidden_empty_page :: Page where
  "hidden_empty_page = hidden_page\<lparr>page_entry := 6, page_content := Text []\<rparr>"

definition pushing_env :: Env where
  "pushing_env =
     plain_env\<lparr>listeners :=
       (\<lambda>ty s. (if ty = afterRender then s\<lparr>pages := pages s @ [hidden_page]\<rparr> else s, True))\<rparr>"

text \<open>A beforeRender listener that cancels when the scan found pages, and only then.\<close>

definition cancelling_env :: Env where
  "cancelling_env =
     plain_env\<lparr>listeners := (\<lambda>ty s. (s, \<not> (ty = beforeRender \<and> scanned s \<noteq> [])))\<rparr>"

text \<open>
  Concrete values for the examples on merge: the defaults of a plugin, and the options
  of a user.
\<close>

definition plugin_defaults :: "(string \<times> jsval) list" where
  "plugin_defaults =
     [(''extensions'', JArr [JStr ''.html'']),
      (''options'', JObj [(''keep_comments'', JBool False), (''minify_js'', JBool True)])]"

definition user_options :: "(string \<times> jsval) list" where
  "user_options =
     [(''extensions'', JArr [JStr ''.css'', JStr ''.js'']),
      (''options'', JObj [(''minify_js'', JBool False)]),
      (''name'', JStr ''minify'')]"

text \<open>
  Concrete values for the examples below: a stand-in for \<open>posix.join\<close> on two plain
  segments, an empty reader rooted at \<open>/site\<close>, the same reader with a remote file
  registered for \<open>a.html\<close>, and loaders that resolve or reject.
\<close>

definition slash_join :: "string \<Rightarrow> string \<Rightarrow> string" where
  "slash_join a b = a @ ''/'' @ b"

definition site_reader :: "(string, string) Reader" where
  "site_reader =
     \<lparr>src = ''/site'', cache = Map.empty, remoteFiles = Map.empty, remoteDirectories = {}\<rparr>"

definition remote_a :: RemoteFile where
  "remote_a =
     \<lparr>filename = ''a.html'', url = ''https://example.com/a.html'', disabled = None,
      content = None\<rparr>"

definition remote_reader :: "(string, string) Reader" where
  "remote_reader = site_reader\<lparr>remoteFiles := [''/site/a.html'' \<mapsto> remote_a]\<rparr>"

definition text_loader :: "(string, string) Loader" where
  "text_loader = \<lparr>ident = 1, run = (\<lambda>path. Returns (Fulfilled (''text of '' @ path)))\<rparr>"

definition json_loader :: "(string, string) Loader" where
  "json_loader = \<lparr>ident = 2, run = (\<lambda>path. Returns (Fulfilled (''json of '' @ path)))\<rparr>"

definition failing_loader :: "(string, string) Loader" where
  "failing_loader = \<lparr>ident = 3, run = (\<lambda>path. Returns (Rejected ''not reachable''))\<rparr>"

definition local_info :: FileInfo where
  "local_info =
     \<lparr>isFile = True, isDirectory = False, isSymlink = False, size_bytes = 120,
      mtime = Some 1, atime = Some 1, birthtime = Some 1, dev = Some 1, ino = Some 7,
      mode = Some 420, nlink = Some 1, uid = Some 0, gid = Some 0, rdev = Some 0,
      blksize = Some 4096, blocks = Some 8\<rparr>"

definition stat_with_local :: "string \<Rightarrow> unit stat_result" where
  "stat_with_local fp = (if fp = ''/site/a.html'' then StatInfo local_info else NotFound)"

definition stat_empty :: "string \<Rightarrow> unit stat_result" where
  "stat_empty fp = NotFound"

section \<open>Properties of the Reader\<close>

lemma getFullPath_cache [simp]: "getFullPath join (r\<lparr>cache := c\<rparr>) p = getFullPath join r p"
  by (simp add: getFullPath_def)

lemma getFullPath_remoteFiles [simp]:
  "getFullPath join (r\<lparr>remoteFiles := m\<rparr>) p = getFullPath join r p"
  by (simp add: getFullPath_def)

lemma loadPath_of_cache [simp]: "loadPath_of (r\<lparr>cache := c\<rparr>) fp = loadPath_of r fp"
  by (simp add: loadPath_of_def)

lemma read_hit:
  "cache r (getFullPath join r p) = Some pr \<Longrightarrow>
     read join r p f = (r, [], await_cached (getFullPath join r p) pr)"
  by (simp add: read_def Let_def)

lemma read_miss:
  "cache r (getFullPath join r p) = None \<Longrightarrow>
   run f (loadPath_of r (getFullPath join r p)) = Returns pr \<Longrightarrow>
     read join r p f =
       (r\<lparr>cache := (cache r)(getFullPath join r p \<mapsto> pr)\<rparr>,
        [(ident f, loadPath_of r (getFullPath join r p))],
        await_cached (getFullPath join r p) pr)"
  by (simp add: read_def Let_def)

lemma reads_hit:
  "cache r fp = Some pr \<Longrightarrow> \<forall>c \<in> set calls. getFullPath join r (fst c) = fp \<Longrightarrow>
     reads join r calls = (r, [], replicate (length calls) (await_cached fp pr))"
proof (induction calls)
  case Nil
  then show ?case by simp
next
  case (Cons c calls)
  obtain p f where c: "c = (p, f)" by (cases c)
  with Cons.prems have "read join r p f = (r, [], await_cached fp pr)"
    using read_hit [of r join p pr f] by simp
  moreover from Cons have "reads join r calls = (r, [], replicate (length calls) (await_cached fp pr))"
    by simp
  ultimately show ?case using c by simp
qed

lemma reads_miss_then_hit:
  assumes "cache r (getFullPath join r p) = None"
    and "run f (loadPath_of r (getFullPath join r p)) = Returns pr"
    and "\<forall>c \<in> set calls. getFullPath join r (fst c) = getFullPath join r p"
  shows "reads join r ((p, f) # calls) =
           (r\<lparr>cache := (cache r)(getFullPath join r p \<mapsto> pr)\<rparr>,
            [(ident f, loadPath_of r (getFullPath join r p))],
            replicate (Suc (length calls)) (await_cached (getFullPath join r p) pr))"
proof -
  let ?fp = "getFullPath join r p"
  let ?r1 = "r\<lparr>cache := (cache r)(?fp \<mapsto> pr)\<rparr>"
  have "cache ?r1 ?fp = Some pr" by simp
  moreover have "\<forall>c \<in> set calls. getFullPath join ?r1 (fst c) = ?fp"
    using assms(3) by simp
  ultimately have "reads join ?r1 calls = (?r1, [], replicate (length calls) (await_cached ?fp pr))"
    by (rule reads_hit)
  then show ?thesis
    using read_miss [OF assms(1,2)] by simp
qed

text \<open>
  C1: starting with no cache slot for the path, any number \<open>n > 0\<close> of calls
  \<open>read(p, f)\<close> (repeated, or overlapping in time) invoke the loader once, at the first
  call, and every call gets the outcome of that one promise; while a slot is live, calls
  invoke no loader at all and all get the outcome of the cached promise; and after
  \<open>deleteCache(p)\<close> the next \<open>read(p, f)\<close> invokes the loader again.
\<close>

theorem read_cache_coherence:
  assumes "run f (loadPath_of r (getFullPath join r p)) = Returns pr" and "0 < n"
  shows "(cache r (getFullPath join r p) = None \<longrightarrow>
            reads join r (replicate n (p, f)) =
              (r\<lparr>cache := (cache r)(getFullPath join r p \<mapsto> pr)\<rparr>,
               [(ident f, loadPath_of r (getFullPath join r p))],
               replicate n (await_cached (getFullPath join r p) pr)))
       \<and> (\<forall>pr0. cache r (getFullPath join r p) = Some pr0 \<longrightarrow>
            reads join r (replicate n (p, f)) =
              (r, [], replicate n (await_cached (getFullPath join r p) pr0)))
       \<and> read join (deleteCache join (fst (reads join r (replicate n (p, f)))) p) p f =
           (r\<lparr>cache := (cache r)(getFullPath join r p \<mapsto> pr)\<rparr>,
            [(ident f, loadPath_of r (getFullPath join r p))],
            await_cached (getFullPath join r p) pr)"
proof -
  let ?fp = "getFullPath join r p"
  obtain m where n: "n = Suc m" using assms(2) by (cases n) auto
  have same: "\<forall>c \<in> set (replicate k (p, f)). getFullPath join r (fst c) = ?fp" for k
    by simp
  have miss: "reads join r (replicate n (p, f)) =
      (r\<lparr>cache := (cache r)(?fp \<mapsto> pr)\<rparr>, [(ident f, loadPath_of r ?fp)],
       replicate n (await_cached ?fp pr))" if "cache r ?fp = None"
    using reads_miss_then_hit [OF that assms(1) same [of m]] n by simp
  have hit: "reads join r (replicate n (p, f)) = (r, [], replicate n (await_cached ?fp pr0))"
    if "cache r ?fp = Some pr0" for pr0
    using reads_hit [OF that same [of n]] by simp
  have after: "read join (deleteCache join (fst (reads join r (replicate n (p, f)))) p) p f =
      (r\<lparr>cache := (cache r)(?fp \<mapsto> pr)\<rparr>, [(ident f, loadPath_of r ?fp)], await_cached ?fp pr)"
  proof -
    let ?r1 = "fst (reads join r (replicate n (p, f)))"
    have r1: "?r1 = r \<or> ?r1 = r\<lparr>cache := (cache r)(?fp \<mapsto> pr)\<rparr>"
      using miss hit by (cases "cache r ?fp") auto
    then have d: "deleteCache join ?r1 p = r\<lparr>cache := (cache r)(?fp := None)\<rparr>"
      by (auto simp: deleteCache_def)
    have "read join (r\<lparr>cache := (cache r)(?fp := None)\<rparr>) p f =
        (r\<lparr>cache := (cache r)(?fp \<mapsto> pr)\<rparr>, [(ident f, loadPath_of r ?fp)], await_cached ?fp pr)"
      using assms(1) by (simp add: read_def Let_def)
    with d show ?thesis by simp
  qed
  from miss hit after show ?thesis by blast
qed

lemma getFullPath_site [simp]:
  "getFullPath slash_join site_reader ''a.html'' = ''/site/a.html''"
  "getFullPath slash_join remote_reader ''a.html'' = ''/site/a.html''"
  "getFullPath slash_join site_reader ''b.html'' = ''/site/b.html''"
  by (simp_all add: getFullPath_def slash_join_def site_reader_def remote_reader_def endsWith_def)

theorem read_cache_coherence_witness:
  "reads slash_join site_reader (replicate 3 (''a.html'', text_loader)) =
     (site_reader\<lparr>cache := [''/site/a.html'' \<mapsto> Fulfilled ''text of /site/a.html'']\<rparr>,
      [(1, ''/site/a.html'')],
      replicate 3 (Inr ''text of /site/a.html''))
   \<and> fst (snd (read slash_join
        (deleteCache slash_join
           (fst (reads slash_join site_reader (replicate 3 (''a.html'', text_loader)))) ''a.html'')
        ''a.html'' text_loader)) = [(1, ''/site/a.html'')]"
proof -
  have lp: "loadPath_of site_reader ''/site/a.html'' = ''/site/a.html''"
    by (simp add: loadPath_of_def site_reader_def)
  have run: "run text_loader (loadPath_of site_reader (getFullPath slash_join site_reader ''a.html''))
      = Returns (Fulfilled ''text of /site/a.html'')"
    by (simp add: lp text_loader_def)
  have empty: "cache site_reader (getFullPath slash_join site_reader ''a.html'') = None"
    by (simp add: site_reader_def)
  have three: "0 < (3::nat)" by simp
  have ident: "ident text_loader = 1" by (simp add: text_loader_def)
  have c: "cache site_reader = Map.empty" by (simp add: site_reader_def)
  note coh = read_cache_coherence [OF run three]
  from coh empty have "reads slash_join site_reader (replicate 3 (''a.html'', text_loader)) =
     (site_reader\<lparr>cache := [''/site/a.html'' \<mapsto> Fulfilled ''text of /site/a.html'']\<rparr>,
      [(1, ''/site/a.html'')],
      replicate 3 (Inr ''text of /site/a.html''))"
    by (simp add: lp ident c await_cached_def)
  moreover from coh have "fst (snd (read slash_join
        (deleteCache slash_join
           (fst (reads slash_join site_reader (replicate 3 (''a.html'', text_loader)))) ''a.html'')
        ''a.html'' text_loader)) = [(ident text_loader, loadPath_of site_reader
            (getFullPath slash_join site_reader ''a.html''))]"
    by (metis fst_conv snd_conv)
  ultimately show ?thesis
    by (simp only: lp ident getFullPath_site simp_thms)
qed

text \<open>
  C2, as stated, fails: the cache is a map from the full path alone. After
  \<open>read(p, f)\<close>, the call \<open>read(p, g)\<close> with another loader finds the slot of \<open>p\<close>
  filled, does not invoke \<open>g\<close>, and returns what \<open>f\<close> produced.
\<close>

theorem read_loaders_share_slot:
  "reads slash_join site_reader [(''a.html'', text_loader), (''a.html'', json_loader)] =
     (site_reader\<lparr>cache := [''/site/a.html'' \<mapsto> Fulfilled ''text of /site/a.html'']\<rparr>,
      [(1, ''/site/a.html'')],
      [Inr ''text of /site/a.html'', Inr ''text of /site/a.html''])
   \<and> ident text_loader \<noteq> ident json_loader
   \<and> run json_loader ''/site/a.html'' = Returns (Fulfilled ''json of /site/a.html'')"
proof -
  have c: "cache site_reader = Map.empty"
    by (simp add: site_reader_def)
  have lp: "loadPath_of site_reader ''/site/a.html'' = ''/site/a.html''"
    by (simp add: loadPath_of_def site_reader_def)
  have "cache site_reader (getFullPath slash_join site_reader ''a.html'') = None"
    by (simp add: c)
  moreover have "run text_loader (loadPath_of site_reader (getFullPath slash_join site_reader ''a.html''))
      = Returns (Fulfilled ''text of /site/a.html'')"
    by (simp add: lp text_loader_def)
  moreover have "\<forall>c \<in> set [(''a.html'', json_loader)].
      getFullPath slash_join site_reader (fst c) = getFullPath slash_join site_reader ''a.html''"
    by simp
  ultimately have "reads slash_join site_reader [(''a.html'', text_loader), (''a.html'', json_loader)] =
      (site_reader\<lparr>cache := (cache site_reader)(getFullPath slash_join site_reader ''a.html'' \<mapsto>
          Fulfilled ''text of /site/a.html'')\<rparr>,
       [(ident text_loader, loadPath_of site_reader (getFullPath slash_join site_reader ''a.html''))],
       replicate (Suc (length [(''a.html'', json_loader)]))
         (await_cached (getFullPath slash_join site_reader ''a.html'')
            (Fulfilled ''text of /site/a.html'')))"
    by (rule reads_miss_then_hit)
  then show ?thesis
    by (simp add: c lp await_cached_def text_loader_def json_loader_def)
qed

text \<open>
  C2, amended: the read cache is keyed by the full path alone. For every path \<open>p\<close> and
  loaders \<open>f\<close> and \<open>g\<close>, when \<open>read(p, f)\<close> fills the empty slot of \<open>p\<close>, a following
  \<open>read(p, g)\<close> uses that slot: only \<open>f\<close> is invoked, once, and both calls get the
  outcome of the promise \<open>f\<close> returned. Two reads have independent slots when their full
  paths differ: then each loader is invoked once and each call gets the outcome of its
  own loader's promise.
\<close>

theorem read_cache_keyed_by_path:
  assumes "cache r (getFullPath join r p) = None"
    and "run f (loadPath_of r (getFullPath join r p)) = Returns pr"
  shows "reads join r [(p, f), (p, g)] =
           (r\<lparr>cache := (cache r)(getFullPath join r p \<mapsto> pr)\<rparr>,
            [(ident f, loadPath_of r (getFullPath join r p))],
            [await_cached (getFullPath join r p) pr, await_cached (getFullPath join r p) pr])
       \<and> (\<forall>q prq. getFullPath join r q \<noteq> getFullPath join r p
              \<and> cache r (getFullPath join r q) = None
              \<and> run g (loadPath_of r (getFullPath join r q)) = Returns prq \<longrightarrow>
            reads join r [(p, f), (q, g)] =
              (r\<lparr>cache := (cache r)(getFullPath join r p \<mapsto> pr, getFullPath join r q \<mapsto> prq)\<rparr>,
               [(ident f, loadPath_of r (getFullPath join r p)),
                (ident g, loadPath_of r (getFullPath join r q))],
               [await_cached (getFullPath join r p) pr, await_cached (getFullPath join r q) prq]))"
proof (intro conjI allI impI)
  have "\<forall>c \<in> set [(p, g)]. getFullPath join r (fst c) = getFullPath join r p"
    by simp
  from reads_miss_then_hit [OF assms this]
  show "reads join r [(p, f), (p, g)] =
           (r\<lparr>cache := (cache r)(getFullPath join r p \<mapsto> pr)\<rparr>,
            [(ident f, loadPath_of r (getFullPath join r p))],
            [await_cached (getFullPath join r p) pr, await_cached (getFullPath join r p) pr])"
    by simp
next
  fix q prq
  let ?fp = "getFullPath join r p" and ?fq = "getFullPath join r q"
  let ?r1 = "r\<lparr>cache := (cache r)(?fp \<mapsto> pr)\<rparr>"
  assume q: "?fq \<noteq> ?fp \<and> cache r ?fq = None \<and> run g (loadPath_of r ?fq) = Returns prq"
  have first: "read join r p f = (?r1, [(ident f, loadPath_of r ?fp)], await_cached ?fp pr)"
    by (rule read_miss [OF assms])
  have "cache ?r1 (getFullPath join ?r1 q) = None"
    using q by simp
  moreover have "run g (loadPath_of ?r1 (getFullPath join ?r1 q)) = Returns prq"
    using q by simp
  ultimately have "read join ?r1 q g =
      (?r1\<lparr>cache := (cache ?r1)(getFullPath join ?r1 q \<mapsto> prq)\<rparr>,
       [(ident g, loadPath_of ?r1 (getFullPath join ?r1 q))],
       await_cached (getFullPath join ?r1 q) prq)"
    by (rule read_miss)
  then have second: "read join ?r1 q g =
      (r\<lparr>cache := (cache r)(?fp \<mapsto> pr, ?fq \<mapsto> prq)\<rparr>,
       [(ident g, loadPath_of r ?fq)], await_cached ?fq prq)"
    by simp
  show "reads join r [(p, f), (q, g)] =
      (r\<lparr>cache := (cache r)(?fp \<mapsto> pr, ?fq \<mapsto> prq)\<rparr>,
       [(ident f, loadPath_of r ?fp), (ident g, loadPath_of r ?fq)],
       [await_cached ?fp pr, await_cached ?fq prq])"
    by (simp add: first second)
qed

theorem read_cache_keyed_by_path_witness:
  "reads slash_join site_reader [(''a.html'', text_loader), (''b.html'', json_loader)] =
     (site_reader\<lparr>cache := [''/site/a.html'' \<mapsto> Fulfilled ''text of /site/a.html'',
                                ''/site/b.html'' \<mapsto> Fulfilled ''json of /site/b.html'']\<rparr>,
      [(1, ''/site/a.html''), (2, ''/site/b.html'')],
      [Inr ''text of /site/a.html'', Inr ''json of /site/b.html''])"
proof -
  have lp: "loadPath_of site_reader fp = fp" for fp
    by (simp add: loadPath_of_def site_reader_def)
  have c: "cache site_reader = Map.empty"
    by (simp add: site_reader_def)
  have empty: "cache site_reader (getFullPath slash_join site_reader ''a.html'') = None"
    by (simp add: c)
  have run: "run text_loader (loadPath_of site_reader (getFullPath slash_join site_reader ''a.html''))
      = Returns (Fulfilled ''text of /site/a.html'')"
    by (simp add: lp text_loader_def)
  have other: "getFullPath slash_join site_reader ''b.html'' \<noteq> getFullPath slash_join site_reader ''a.html''
      \<and> cache site_reader (getFullPath slash_join site_reader ''b.html'') = None
      \<and> run json_loader (loadPath_of site_reader (getFullPath slash_join site_reader ''b.html''))
          = Returns (Fulfilled ''json of /site/b.html'')"
    by (simp add: lp c json_loader_def)
  from read_cache_keyed_by_path [OF empty run, of json_loader] other
  have "reads slash_join site_reader [(''a.html'', text_loader), (''b.html'', json_loader)] =
      (site_reader\<lparr>cache := (cache site_reader)
          (getFullPath slash_join site_reader ''a.html'' \<mapsto> Fulfilled ''text of /site/a.html'',
           getFullPath slash_join site_reader ''b.html'' \<mapsto> Fulfilled ''json of /site/b.html'')\<rparr>,
       [(ident text_loader, loadPath_of site_reader (getFullPath slash_join site_reader ''a.html'')),
        (ident json_loader, loadPath_of site_reader (getFullPath slash_join site_reader ''b.html''))],
       [await_cached (getFullPath slash_join site_reader ''a.html'') (Fulfilled ''text of /site/a.html''),
        await_cached (getFullPath slash_join site_reader ''b.html'') (Fulfilled ''json of /site/b.html'')])"
    by blast
  then show ?thesis
    by (simp add: lp c await_cached_def text_loader_def json_loader_def)
qed

text \<open>
  C8, as stated, fails: with an active remote file at the path, the loader is given the
  remote URL, and when its promise rejects the exception carries the local full path,
  not the URL at which the load was attempted.
\<close>

theorem read_exception_carries_local_path:
  "read slash_join remote_reader ''a.html'' failing_loader =
     (remote_reader\<lparr>cache := [''/site/a.html'' \<mapsto> Rejected ''not reachable'']\<rparr>,
      [(3, ''https://example.com/a.html'')],
      Inl \<lparr>message = ''Couldn't load this file'', cause = ''not reachable'',
           fullpath = ''/site/a.html''\<rparr>)"
proof -
  have "loadPath_of remote_reader ''/site/a.html'' = ''https://example.com/a.html''"
    by (simp add: loadPath_of_def remote_reader_def remote_a_def)
  moreover have "cache remote_reader = Map.empty"
    by (simp add: remote_reader_def site_reader_def)
  ultimately show ?thesis
    by (simp add: read_def Let_def failing_loader_def await_cached_def)
qed

text \<open>
  C8, amended: for every path and loader, if the load fails (the loader throws, the
  promise it returns rejects, or the promise already cached for the path is a rejected
  one), read raises an Exception with the message "Couldn't load this file" whose cause
  is the original error and which carries, as \<open>fullpath\<close>, the local full path
  \<open>getFullPath(path)\<close>; this is so also when a remote file is active at the path and the
  loader was given the remote URL. Every exception read raises carries that local path.
\<close>

theorem read_failure_exception:
  "(cache r (getFullPath join r path) = None
      \<and> (run loader (loadPath_of r (getFullPath join r path)) = Throws c
         \<or> run loader (loadPath_of r (getFullPath join r path)) = Returns (Rejected c)) \<longrightarrow>
    snd (read join r path loader) =
      ([(ident loader, loadPath_of r (getFullPath join r path))],
       Inl \<lparr>message = ''Couldn't load this file'', cause = c,
            fullpath = getFullPath join r path\<rparr>))
   \<and> (cache r (getFullPath join r path) = Some (Rejected c) \<longrightarrow>
        read join r path loader =
          (r, [], Inl \<lparr>message = ''Couldn't load this file'', cause = c,
                       fullpath = getFullPath join r path\<rparr>))
   \<and> (\<forall>x. snd (snd (read join r path loader)) = Inl x \<longrightarrow>
          fullpath x = getFullPath join r path \<and> message x = ''Couldn't load this file'')"
  by (auto simp: read_def Let_def await_cached_def
      split: option.splits called.splits promise.splits)

theorem read_failure_exception_witness:
  "snd (read slash_join remote_reader ''a.html'' failing_loader) =
     ([(3, ''https://example.com/a.html'')],
      Inl \<lparr>message = ''Couldn't load this file'', cause = ''not reachable'',
           fullpath = ''/site/a.html''\<rparr>)"
proof -
  have lp: "loadPath_of remote_reader (getFullPath slash_join remote_reader ''a.html'')
      = ''https://example.com/a.html''"
    by (simp add: loadPath_of_def remote_reader_def remote_a_def)
  have "cache remote_reader (getFullPath slash_join remote_reader ''a.html'') = None"
    by (simp add: remote_reader_def site_reader_def)
  moreover have "run failing_loader (loadPath_of remote_reader (getFullPath slash_join remote_reader ''a.html''))
      = Returns (Rejected ''not reachable'')"
    by (simp add: failing_loader_def)
  ultimately have "snd (read slash_join remote_reader ''a.html'' failing_loader) =
      ([(ident failing_loader, loadPath_of remote_reader (getFullPath slash_join remote_reader ''a.html''))],
       Inl \<lparr>message = ''Couldn't load this file'', cause = ''not reachable'',
            fullpath = getFullPath slash_join remote_reader ''a.html''\<rparr>)"
    using read_failure_exception [of remote_reader slash_join "''a.html''" failing_loader "''not reachable''"]
    by blast
  moreover have "ident failing_loader = 3"
    by (simp add: failing_loader_def)
  moreover have "loadPath_of remote_reader ''/site/a.html'' = ''https://example.com/a.html''"
    by (simp add: loadPath_of_def remote_reader_def remote_a_def)
  ultimately show ?thesis
    by simp
qed

text \<open>
  C3: a remote file registered by remoteFile is in the map under the full path of its
  name, with its \<open>disabled\<close> flag not set. getInfo asks the local file system first. When the local file exists, its info is
  returned and a remote file registered at the path is marked disabled, so that read loads
  from the local path. When the local stat raises NotFound and a remote file is
  registered, the remote file is enabled again, read loads from its URL, and a synthetic
  info of a file of size zero is returned; with only a remote directory registered the
  synthetic info is that of a directory; with neither, the result is undefined.
\<close>

theorem getInfo_remote_shadowing:
  "(\<forall>dirname r0 u. remoteFile join dirname r0 path u = Some r \<longrightarrow>
      remoteFiles r (getFullPath join r path) =
        Some \<lparr>filename = path, url = u, disabled = None, content = None\<rparr>)
   \<and> (\<forall>rf info. remoteFiles r (getFullPath join r path) = Some rf
        \<and> stat (getFullPath join r path) = StatInfo info \<longrightarrow>
      getInfo join stat r path =
        (r\<lparr>remoteFiles := (remoteFiles r)(getFullPath join r path \<mapsto> rf\<lparr>disabled := Some True\<rparr>)\<rparr>,
         Inr (Some info))
      \<and> loadPath_of (fst (getInfo join stat r path)) (getFullPath join r path)
          = getFullPath join r path)
   \<and> (\<forall>rf. remoteFiles r (getFullPath join r path) = Some rf
        \<and> stat (getFullPath join r path) = NotFound \<longrightarrow>
      (\<exists>info. getInfo join stat r path =
          (r\<lparr>remoteFiles := (remoteFiles r)(getFullPath join r path \<mapsto> rf\<lparr>disabled := Some False\<rparr>)\<rparr>,
           Inr (Some info))
         \<and> isFile info \<and> \<not> isDirectory info \<and> \<not> isSymlink info \<and> size_bytes info = 0)
      \<and> loadPath_of (fst (getInfo join stat r path)) (getFullPath join r path) = url rf)
   \<and> (remoteFiles r (getFullPath join r path) = None
        \<and> getFullPath join r path \<in> remoteDirectories r
        \<and> stat (getFullPath join r path) = NotFound \<longrightarrow>
      (\<exists>info. getInfo join stat r path = (r, Inr (Some info))
         \<and> \<not> isFile info \<and> isDirectory info \<and> \<not> isSymlink info \<and> size_bytes info = 0))
   \<and> (remoteFiles r (getFullPath join r path) = None
        \<and> getFullPath join r path \<notin> remoteDirectories r
        \<and> stat (getFullPath join r path) = NotFound \<longrightarrow>
      getInfo join stat r path = (r, Inr None))"
proof (intro conjI allI impI)
  fix dirname r0 u
  assume "remoteFile join dirname r0 path u = Some r"
  then obtain dirs where r: "r = r0\<lparr>remoteDirectories := dirs,
      remoteFiles := (remoteFiles r0)(getFullPath join r0 path \<mapsto>
        \<lparr>filename = path, url = u, disabled = None, content = None\<rparr>)\<rparr>"
    by (auto simp: remoteFile_def split: option.splits)
  have "getFullPath join r path = getFullPath join r0 path"
    by (simp add: r getFullPath_def)
  then show "remoteFiles r (getFullPath join r path) =
        Some \<lparr>filename = path, url = u, disabled = None, content = None\<rparr>"
    by (simp add: r)
qed (simp_all add: getInfo_def Let_def set_disabled_def loadPath_of_def)

theorem getInfo_remote_shadowing_witness:
  "remoteFile slash_join (\<lambda>name. ''.'') site_reader ''a.html'' ''https://example.com/a.html''
     = Some remote_reader
   \<and> remoteFiles remote_reader ''/site/a.html'' = Some remote_a
   \<and> getInfo slash_join stat_empty remote_reader ''a.html'' =
     (remote_reader\<lparr>remoteFiles := [''/site/a.html'' \<mapsto> remote_a\<lparr>disabled := Some False\<rparr>]\<rparr>,
      Inr (Some \<lparr>isFile = True, isDirectory = False, isSymlink = False, size_bytes = 0,
        mtime = None, atime = None, birthtime = None, dev = None, ino = None, mode = None,
        nlink = None, uid = None, gid = None, rdev = None, blksize = None, blocks = None\<rparr>))
   \<and> getInfo slash_join stat_with_local remote_reader ''a.html'' =
     (remote_reader\<lparr>remoteFiles := [''/site/a.html'' \<mapsto> remote_a\<lparr>disabled := Some True\<rparr>]\<rparr>,
      Inr (Some local_info))
   \<and> loadPath_of (fst (getInfo slash_join stat_with_local remote_reader ''a.html'')) ''/site/a.html''
       = ''/site/a.html''
   \<and> loadPath_of
        (fst (getInfo slash_join stat_empty
           (fst (getInfo slash_join stat_with_local remote_reader ''a.html'')) ''a.html''))
        ''/site/a.html''
       = ''https://example.com/a.html''
   \<and> getInfo slash_join stat_empty site_reader ''a.html'' = (site_reader, Inr None)"
proof -
  let ?fp = "''/site/a.html''"
  have fp [simp]: "getFullPath slash_join r ''a.html'' = ?fp" if "src r = ''/site''"
    for r :: "(string, string) Reader"
    using that by (simp add: getFullPath_def slash_join_def endsWith_def)
  have src [simp]: "src remote_reader = ''/site''" "src site_reader = ''/site''"
    by (simp_all add: remote_reader_def site_reader_def)
  have rfs: "remoteFiles remote_reader = [?fp \<mapsto> remote_a]"
    by (simp add: remote_reader_def site_reader_def)
  have reg: "remoteFiles remote_reader ?fp = Some remote_a"
    by (simp add: rfs)
  have absent: "stat_empty ?fp = NotFound" and present: "stat_with_local ?fp = StatInfo local_info"
    by (simp_all add: stat_empty_def stat_with_local_def)
  have u: "url remote_a = ''https://example.com/a.html''"
    by (simp add: remote_a_def)
  have registered: "remoteFile slash_join (\<lambda>name. ''.'') site_reader ''a.html''
      ''https://example.com/a.html'' = Some remote_reader"
    by (simp add: remoteFile_def remoteFile_directories.simps remote_reader_def remote_a_def
        site_reader_def getFullPath_def slash_join_def endsWith_def)
  note at_remote = getInfo_remote_shadowing [of slash_join "''a.html''" remote_reader]
  from at_remote [of stat_empty] registered
  have "remoteFiles remote_reader (getFullPath slash_join remote_reader ''a.html'') =
      Some \<lparr>filename = ''a.html'', url = ''https://example.com/a.html'', disabled = None,
        content = None\<rparr>"
    by blast
  then have zeroth: "remoteFiles remote_reader ''/site/a.html'' = Some remote_a"
    by (simp add: remote_a_def)
  have remote_only: "\<exists>info. getInfo slash_join stat_empty remote_reader ''a.html'' =
      (remote_reader\<lparr>remoteFiles := [?fp \<mapsto> remote_a\<lparr>disabled := Some False\<rparr>]\<rparr>, Inr (Some info))
      \<and> isFile info \<and> \<not> isDirectory info \<and> \<not> isSymlink info \<and> size_bytes info = 0"
    using at_remote [of stat_empty] reg absent by (simp add: rfs)
  have first: "getInfo slash_join stat_empty remote_reader ''a.html'' =
     (remote_reader\<lparr>remoteFiles := [?fp \<mapsto> remote_a\<lparr>disabled := Some False\<rparr>]\<rparr>,
      Inr (Some \<lparr>isFile = True, isDirectory = False, isSymlink = False, size_bytes = 0,
        mtime = None, atime = None, birthtime = None, dev = None, ino = None, mode = None,
        nlink = None, uid = None, gid = None, rdev = None, blksize = None, blocks = None\<rparr>))"
    using remote_only by (simp add: getInfo_def Let_def reg absent set_disabled_def rfs)
  have both: "getInfo slash_join stat_with_local remote_reader ''a.html'' =
     (remote_reader\<lparr>remoteFiles := [?fp \<mapsto> remote_a\<lparr>disabled := Some True\<rparr>]\<rparr>,
      Inr (Some local_info))
     \<and> loadPath_of (fst (getInfo slash_join stat_with_local remote_reader ''a.html'')) ?fp = ?fp"
  proof -
    note at_local = at_remote [of stat_with_local, unfolded getFullPath_site]
    from at_local reg present
    have "getInfo slash_join stat_with_local remote_reader ''a.html'' =
        (remote_reader\<lparr>remoteFiles := (remoteFiles remote_reader)(?fp \<mapsto> remote_a\<lparr>disabled := Some True\<rparr>)\<rparr>,
         Inr (Some local_info))"
      and l: "loadPath_of (fst (getInfo slash_join stat_with_local remote_reader ''a.html'')) ?fp = ?fp"
      by blast+
    then show ?thesis
      by (simp add: rfs)
  qed
  then have second: "getInfo slash_join stat_with_local remote_reader ''a.html'' =
     (remote_reader\<lparr>remoteFiles := [?fp \<mapsto> remote_a\<lparr>disabled := Some True\<rparr>]\<rparr>,
      Inr (Some local_info))"
    and third: "loadPath_of (fst (getInfo slash_join stat_with_local remote_reader ''a.html'')) ?fp = ?fp"
    by blast+
  let ?r2 = "remote_reader\<lparr>remoteFiles := [?fp \<mapsto> remote_a\<lparr>disabled := Some True\<rparr>]\<rparr>"
  have reg2: "remoteFiles ?r2 ?fp = Some (remote_a\<lparr>disabled := Some True\<rparr>)"
    by simp
  have fourth: "loadPath_of (fst (getInfo slash_join stat_empty ?r2 ''a.html'')) ?fp
      = ''https://example.com/a.html''"
    using getInfo_remote_shadowing [of slash_join "''a.html''" ?r2 stat_empty] reg2 absent u
    by simp
  have none: "remoteFiles site_reader ?fp = None \<and> ?fp \<notin> remoteDirectories site_reader"
    by (simp add: site_reader_def)
  have fifth: "getInfo slash_join stat_empty site_reader ''a.html'' = (site_reader, Inr None)"
    using getInfo_remote_shadowing [of slash_join "''a.html''" site_reader stat_empty] none absent
    by simp
  from registered zeroth first second third fourth fifth show ?thesis
    by simp
qed

section \<open>Properties of searchByExtension\<close>

lemma endsWith_suffix: "endsWith s k \<longleftrightarrow> suffix k s"
proof
  assume "endsWith s k"
  then have "s = take (length s - length k) s @ k"
    by (metis append_take_drop_id endsWith_def)
  then show "suffix k s"
    by (metis suffixI)
next
  assume "suffix k s"
  then obtain pre where "s = pre @ k"
    by (auto simp: suffix_def)
  then show "endsWith s k"
    by (simp add: endsWith_def)
qed

lemma searchByExtension_None:
  "searchByExtension path exts = None \<longleftrightarrow> (\<forall>kv \<in> set exts. \<not> endsWith path (fst kv))"
  by (induction exts) (auto split: if_splits)

lemma searchByExtension_Some:
  "searchByExtension path exts = Some r \<Longrightarrow>
     \<exists>i < length exts. exts ! i = r \<and> endsWith path (fst r) \<and>
        (\<forall>j < i. \<not> endsWith path (fst (exts ! j)))"
proof (induction exts)
  case Nil
  then show ?case by simp
next
  case (Cons kv rest)
  obtain key val where kv: "kv = (key, val)" by (cases kv)
  show ?case
  proof (cases "endsWith path key")
    case True
    with Cons.prems kv have "r = (key, val)" by simp
    with True kv show ?thesis by (intro exI [of _ 0]) simp
  next
    case False
    with Cons.prems kv have "searchByExtension path rest = Some r" by simp
    from Cons.IH [OF this] obtain i where i: "i < length rest" "rest ! i = r"
      "endsWith path (fst r)" "\<forall>j < i. \<not> endsWith path (fst (rest ! j))"
      by blast
    have "\<forall>j < Suc i. \<not> endsWith path (fst ((kv # rest) ! j))"
    proof (intro allI impI)
      fix j assume "j < Suc i"
      then show "\<not> endsWith path (fst ((kv # rest) ! j))"
        using False kv i(4) by (cases j) auto
    qed
    with i show ?thesis by (intro exI [of _ "Suc i"]) simp
  qed
qed

text \<open>
  C7, as stated, fails: with \<open>.js\<close> registered before \<open>.min.js\<close>, the path
  \<open>main.min.js\<close> gets the row of \<open>.js\<close>, although the longer \<open>.min.js\<close> is a
  registered suffix of it too.
\<close>

theorem searchByExtension_not_longest:
  "searchByExtension ''main.min.js'' [(''.js'', 1::nat), (''.min.js'', 2)] = Some (''.js'', 1)
   \<and> endsWith ''main.min.js'' ''.min.js''
   \<and> length ''.js'' < length ''.min.js''"
  by (simp add: endsWith_def)

text \<open>
  C7, amended: searchByExtension returns the first row, in the iteration order of the
  registered extensions, whose extension is a suffix of the path, and undefined exactly
  when no registered extension is a suffix of the path. That row is the longest match
  whenever the extensions are iterated from longest to shortest.
\<close>

theorem searchByExtension_first_match:
  "(searchByExtension path exts = None \<longleftrightarrow> (\<forall>kv \<in> set exts. \<not> suffix (fst kv) path))
   \<and> (\<forall>r. searchByExtension path exts = Some r \<longrightarrow>
        (\<exists>i < length exts. exts ! i = r \<and> suffix (fst r) path \<and>
            (\<forall>j < i. \<not> suffix (fst (exts ! j)) path)))
   \<and> (\<forall>r. sorted_wrt (\<lambda>a b. length (fst b) \<le> length (fst a)) exts \<longrightarrow>
          searchByExtension path exts = Some r \<longrightarrow>
          (\<forall>kv \<in> set exts. suffix (fst kv) path \<longrightarrow> length (fst kv) \<le> length (fst r)))"
proof (intro conjI allI impI)
  show "searchByExtension path exts = None \<longleftrightarrow> (\<forall>kv \<in> set exts. \<not> suffix (fst kv) path)"
    by (simp add: searchByExtension_None endsWith_suffix)
next
  fix r assume "searchByExtension path exts = Some r"
  from searchByExtension_Some [OF this]
  show "\<exists>i < length exts. exts ! i = r \<and> suffix (fst r) path \<and>
            (\<forall>j < i. \<not> suffix (fst (exts ! j)) path)"
    by (simp add: endsWith_suffix)
next
  fix r
  assume sorted: "sorted_wrt (\<lambda>a b. length (fst b) \<le> length (fst a)) exts"
    and found: "searchByExtension path exts = Some r"
  from searchByExtension_Some [OF found] obtain i where i: "i < length exts" "exts ! i = r"
    "\<forall>j < i. \<not> endsWith path (fst (exts ! j))"
    by blast
  show "\<forall>kv \<in> set exts. suffix (fst kv) path \<longrightarrow> length (fst kv) \<le> length (fst r)"
  proof (intro ballI impI)
    fix kv assume "kv \<in> set exts" and suf: "suffix (fst kv) path"
    then obtain j where j: "j < length exts" "exts ! j = kv"
      by (auto simp: in_set_conv_nth)
    show "length (fst kv) \<le> length (fst r)"
    proof (cases "j = i")
      case True
      with i j show ?thesis by simp
    next
      case False
      have "\<not> j < i"
        using i(3) j(2) suf by (auto simp: endsWith_suffix)
      with False have "i < j" by simp
      with sorted j(1) have "length (fst (exts ! j)) \<le> length (fst (exts ! i))"
        by (simp add: sorted_wrt_iff_nth_less)
      with i j show ?thesis by simp
    qed
  qed
qed

theorem searchByExtension_first_match_witness:
  "searchByExtension ''main.min.js'' [(''.min.js'', 2::nat), (''.js'', 1)] = Some (''.min.js'', 2)
   \<and> length ''.js'' \<le> length (fst (''.min.js'', 2::nat))
   \<and> searchByExtension ''main.css'' [(''.min.js'', 2::nat), (''.js'', 1)] = None"
proof -
  let ?exts = "[(''.min.js'', 2::nat), (''.js'', 1)]"
  have found: "searchByExtension ''main.min.js'' ?exts = Some (''.min.js'', 2)"
    by (simp add: endsWith_def)
  have sorted: "sorted_wrt (\<lambda>a b. length (fst b) \<le> length (fst a)) ?exts"
    by simp
  have suf: "suffix (fst (''.js'', 1::nat)) ''main.min.js''"
    by (simp add: endsWith_suffix [symmetric] endsWith_def)
  have "\<forall>kv \<in> set ?exts. suffix (fst kv) ''main.min.js'' \<longrightarrow>
          length (fst kv) \<le> length (fst (''.min.js'', 2::nat))"
    using searchByExtension_first_match [of "''main.min.js''" ?exts] sorted found by blast
  with suf have "length ''.js'' \<le> length (fst (''.min.js'', 2::nat))"
    by simp
  moreover have "\<forall>kv \<in> set ?exts. \<not> suffix (fst kv) ''main.css''"
    by (simp add: endsWith_suffix [symmetric] endsWith_def)
  then have "searchByExtension ''main.css'' ?exts = None"
    using searchByExtension_first_match [of "''main.css''" ?exts] by blast
  ultimately show ?thesis using found by simp
qed

section \<open>Properties of the build and update cycles\<close>

lemma effect_simps [simp]:
  "fst (effect e st) = fst st" "snd (effect e st) = snd st @ [e]"
  by (simp_all add: effect_def)

lemma dispatchEvent_simps [simp]:
  "snd (fst (dispatchEvent env ty st)) = snd st @ [Dispatched ty]"
  "fst (fst (dispatchEvent env ty st)) = fst (listeners env ty (fst st))"
  "snd (dispatchEvent env ty st) = snd (listeners env ty (fst st))"
  by (simp_all add: dispatchEvent_def split: prod.splits)

lemma scanStep_log [simp]: "snd (scanStep env changed st) = snd st"
  by (simp add: scanStep_def split: prod.splits)

lemma reload_log:
  "\<exists>new. snd (reload env changed st) = snd st @ new
     \<and> (\<forall>e \<in> set new. \<not> reaches_writer e \<and> \<not> after_event e) \<and> saved new = []"
proof (induction changed arbitrary: st)
  case Nil
  then show ?case by simp
next
  case (Cons f rest)
  let ?sb = "effect (FsUpdate f) (effect (FormatsDeleteCache f) st)"
  show ?case
  proof (cases "fs_update env f")
    case None
    from Cons.IH [of ?sb] obtain new where
      "snd (reload env rest ?sb) = snd ?sb @ new"
      "\<forall>e \<in> set new. \<not> reaches_writer e \<and> \<not> after_event e" "saved new = []"
      by blast
    with None show ?thesis
      by (intro exI [of _ "[FormatsDeleteCache f, FsUpdate f] @ new"]) simp
  next
    case (Some entry)
    let ?rm = "WriterRemoveFiles
        (map page_outputPath (filter (\<lambda>page. page_entry page = entry) (pages (fst ?sb)))
         @ map file_outputPath (filter (\<lambda>sf. file_entry sf = entry) (files (fst ?sb))))"
    from Cons.IH [of "effect ?rm ?sb"] obtain new where
      "snd (reload env rest (effect ?rm ?sb)) = snd (effect ?rm ?sb) @ new"
      "\<forall>e \<in> set new. \<not> reaches_writer e \<and> \<not> after_event e" "saved new = []"
      by blast
    with Some show ?thesis
      by (intro exI [of _ "[FormatsDeleteCache f, FsUpdate f, ?rm] @ new"]) (simp add: Let_def)
  qed
qed

lemma buildPages_cancelled:
  assumes "\<not> snd (dispatchEvent env beforeRender st)"
  shows "buildPages env st = (fst (dispatchEvent env beforeRender st), False)"
  using assms by (simp add: buildPages_def case_prod_beta)

lemma build_unfold:
  "build env st =
     (if \<not> snd (dispatchEvent env beforeBuild st) then fst (dispatchEvent env beforeBuild st)
      else if \<not> snd (buildPages env (build_at_render env st))
           then fst (buildPages env (build_at_render env st))
           else fst (dispatchEvent env afterBuild
                  (effect LoggerLog (saveStep (fst (buildPages env (build_at_render env st)))))))"
  by (simp add: build_def build_at_render_def case_prod_beta)

lemma update_unfold:
  "update env changed st =
     (if \<not> snd (dispatchEvent env beforeUpdate st) then fst (dispatchEvent env beforeUpdate st)
      else if \<not> snd (buildPages env (update_at_render env changed st))
           then fst (buildPages env (update_at_render env changed st))
           else fst (dispatchEvent env afterUpdate
                  (if writer_savePages env
                        (pages (fst (fst (buildPages env (update_at_render env changed st))))) \<noteq> []
                      \<or> writer_copyFiles env
                        (files (fst (fst (buildPages env (update_at_render env changed st))))) \<noteq> []
                   then effect LoggerLog
                          (saveStep (fst (buildPages env (update_at_render env changed st))))
                   else saveStep (fst (buildPages env (update_at_render env changed st))))))"
  by (simp add: update_def update_at_render_def case_prod_beta Let_def)

lemma build_at_render_log:
  "\<forall>e \<in> set (snd (build_at_render env (s, []))). \<not> reaches_writer e \<and> \<not> after_event e"
  by (simp add: build_at_render_def)

lemma update_at_render_log:
  "\<forall>e \<in> set (snd (update_at_render env changed (s, []))). \<not> reaches_writer e \<and> \<not> after_event e"
proof -
  let ?sd = "effect SearcherDeleteCache (fst (dispatchEvent env beforeUpdate (s, [])))"
  obtain new where "snd (reload env changed ?sd) = snd ?sd @ new"
    "\<forall>e \<in> set new. \<not> reaches_writer e \<and> \<not> after_event e"
    using reload_log [of env changed ?sd] by blast
  then show ?thesis
    by (auto simp: update_at_render_def)
qed

text \<open>
  C4: if, in a build cycle or in an update cycle, the dispatch of beforeRender returns
  false (a listener gave the cancellation signal in the state the cycle had reached),
  then in that cycle neither \<open>writer.savePages\<close> nor \<open>writer.copyFiles\<close> is called, and
  none of afterRender, afterBuild and afterUpdate is dispatched. (What the cycle did
  before beforeRender stays done: \<open>writer.clear\<close> in a build, \<open>writer.removeFiles\<close> in
  an update.)
\<close>

theorem beforeRender_cancellation:
  "(\<not> snd (dispatchEvent env beforeRender (build_at_render env (s, []))) \<longrightarrow>
      (\<forall>e \<in> set (snd (build env (s, []))). \<not> reaches_writer e \<and> \<not> after_event e))
   \<and> (\<not> snd (dispatchEvent env beforeRender (update_at_render env changed (s, []))) \<longrightarrow>
      (\<forall>e \<in> set (snd (update env changed (s, []))). \<not> reaches_writer e \<and> \<not> after_event e))"
proof (intro conjI impI)
  assume cancel: "\<not> snd (dispatchEvent env beforeRender (build_at_render env (s, [])))"
  show "\<forall>e \<in> set (snd (build env (s, []))). \<not> reaches_writer e \<and> \<not> after_event e"
  proof (cases "snd (dispatchEvent env beforeBuild (s, []))")
    case False
    then have "build env (s, []) = fst (dispatchEvent env beforeBuild (s, []))"
      by (simp add: build_unfold)
    then show ?thesis by simp
  next
    case True
    then have "build env (s, []) = fst (dispatchEvent env beforeRender (build_at_render env (s, [])))"
      by (simp only: build_unfold buildPages_cancelled [OF cancel]) simp
    then have "snd (build env (s, [])) = snd (build_at_render env (s, [])) @ [Dispatched beforeRender]"
      by simp
    with build_at_render_log [of env s] show ?thesis
      by auto
  qed
next
  assume cancel: "\<not> snd (dispatchEvent env beforeRender (update_at_render env changed (s, [])))"
  show "\<forall>e \<in> set (snd (update env changed (s, []))). \<not> reaches_writer e \<and> \<not> after_event e"
  proof (cases "snd (dispatchEvent env beforeUpdate (s, []))")
    case False
    then have "update env changed (s, []) = fst (dispatchEvent env beforeUpdate (s, []))"
      by (simp add: update_unfold)
    then show ?thesis by simp
  next
    case True
    then have "update env changed (s, []) =
        fst (dispatchEvent env beforeRender (update_at_render env changed (s, [])))"
      by (simp only: update_unfold buildPages_cancelled [OF cancel]) simp
    then have "snd (update env changed (s, [])) =
        snd (update_at_render env changed (s, [])) @ [Dispatched beforeRender]"
      by simp
    with update_at_render_log [of env changed s] show ?thesis
      by auto
  qed
qed

theorem beforeRender_cancellation_witness:
  "snd (build cancelling_env (fresh_site, [])) =
     [Dispatched beforeBuild, WriterClear, FsInit, Dispatched beforeRender]
   \<and> snd (listeners cancelling_env beforeRender fresh_site)
   \<and> WriterSavePages [home_page] \<notin> set (snd (build cancelling_env (fresh_site, [])))
   \<and> Dispatched afterUpdate \<notin> set (snd (update cancelling_env [''/index.md''] (fresh_site, [])))"
proof -
  have scan: "scanned (fst (build_at_render cancelling_env (fresh_site, []))) \<noteq> []"
    "scanned (fst (update_at_render cancelling_env [''/index.md''] (fresh_site, []))) \<noteq> []"
    by (simp_all add: build_at_render_def update_at_render_def scanStep_def dispatchEvent_def
        effect_def cancelling_env_def plain_env_def Let_def)
  have cancel_build:
    "\<not> snd (dispatchEvent cancelling_env beforeRender (build_at_render cancelling_env (fresh_site, [])))"
    using scan(1) by (simp add: cancelling_env_def)
  have cancel_update:
    "\<not> snd (dispatchEvent cancelling_env beforeRender
        (update_at_render cancelling_env [''/index.md''] (fresh_site, [])))"
    using scan(2) by (simp add: cancelling_env_def)
  note quiet = beforeRender_cancellation [of cancelling_env fresh_site "[''/index.md'']"]
  have "\<not> reaches_writer e" if "e \<in> set (snd (build cancelling_env (fresh_site, [])))" for e
    using quiet cancel_build that by blast
  then have a: "WriterSavePages [home_page] \<notin> set (snd (build cancelling_env (fresh_site, [])))"
    by force
  have "\<not> after_event e"
    if "e \<in> set (snd (update cancelling_env [''/index.md''] (fresh_site, [])))" for e
    using quiet cancel_update that by blast
  then have b: "Dispatched afterUpdate \<notin> set (snd (update cancelling_env [''/index.md''] (fresh_site, [])))"
    by force
  have c: "snd (build cancelling_env (fresh_site, [])) =
      [Dispatched beforeBuild, WriterClear, FsInit, Dispatched beforeRender]"
    by (simp add: build_def buildPages_def dispatchEvent_def scanStep_def effect_def
        cancelling_env_def plain_env_def)
  have d: "snd (listeners cancelling_env beforeRender fresh_site)"
    by (simp add: cancelling_env_def fresh_site_def)
  from a b c d show ?thesis by blast
qed

lemma saved_append [simp]: "saved (xs @ ys) = saved xs @ saved ys"
  by (induction xs rule: saved.induct) simp_all

lemma saved_warnings [simp]: "saved (map LoggerWarn ws) = []"
  by (induction ws) simp_all

lemma filter_pages_kept: "fst (filter_pages ps) = filter publishable ps"
  by (induction ps) (auto simp: publishable_def split: prod.splits)

lemma filter_pages_warnings:
  "snd (filter_pages ps) =
     map skip_warning (filter (\<lambda>page. data_url page \<noteq> UrlFalse \<and> shouldSkip page) ps)"
  by (induction ps) (auto split: prod.splits)

lemma filterStep_eq:
  "filterStep (s, effs) =
     (s\<lparr>pages := filter publishable (pages s)\<rparr>,
      effs @ map LoggerWarn (map skip_warning
        (filter (\<lambda>page. data_url page \<noteq> UrlFalse \<and> shouldSkip page) (pages s))))"
  by (simp add: filterStep_def case_prod_beta filter_pages_kept filter_pages_warnings)

lemma buildPages_saved [simp]: "saved (snd (fst (buildPages env st))) = saved (snd st)"
proof -
  have r: "snd (renderStep env st') = snd st'" for st'
    by (simp add: renderStep_def split: prod.splits)
  have f: "saved (snd (filterStep st')) = saved (snd st')" for st'
    by (simp add: filterStep_def case_prod_beta)
  have p: "snd (processStep env st') = snd st'" for st'
    by (simp add: processStep_def)
  show ?thesis
    by (simp add: buildPages_def case_prod_beta r f p)
qed

lemma publishable_not_dropped: "publishable page \<Longrightarrow> \<not> dropped_kind page"
  by (cases "page_content page") (auto simp: publishable_def shouldSkip_def dropped_kind_def)

lemma dropped_shouldSkip:
  "dropped_kind page \<Longrightarrow> data_url page \<noteq> UrlFalse \<Longrightarrow> shouldSkip page"
  by (auto simp: shouldSkip_def dropped_kind_def)

lemma buildPages_kept:
  assumes after: "\<forall>s. list_all (\<lambda>p. \<not> dropped_kind p) (pages s) \<longrightarrow>
        list_all (\<lambda>p. \<not> dropped_kind p) (pages (fst (listeners env afterRender s)))"
    and before: "\<forall>s. list_all (\<lambda>p. \<not> dropped_kind p) (pages s) \<longrightarrow>
        list_all (\<lambda>p. \<not> dropped_kind p) (pages (fst (listeners env beforeSave s)))"
    and procs: "\<forall>ps. list_all (\<lambda>p. \<not> dropped_kind p) ps \<longrightarrow>
        list_all (\<lambda>p. \<not> dropped_kind p) (processors_run env ps)"
    and ok: "snd (buildPages env st)"
  shows "list_all (\<lambda>p. \<not> dropped_kind p) (pages (fst (fst (buildPages env st))))"
proof -
  let ?sa = "fst (dispatchEvent env beforeRender st)"
  let ?sb = "filterStep (renderStep env ?sa)"
  let ?sc = "fst (dispatchEvent env afterRender ?sb)"
  let ?sd = "processStep env ?sc"
  from ok have ok1: "snd (dispatchEvent env beforeRender st)"
    by (auto simp: buildPages_def case_prod_beta split: if_splits)
  with ok have ok2: "snd (dispatchEvent env afterRender ?sb)"
    by (auto simp: buildPages_def case_prod_beta split: if_splits)
  have res: "fst (buildPages env st) = fst (dispatchEvent env beforeSave ?sd)"
    using ok1 ok2 by (simp add: buildPages_def case_prod_beta)
  have "list_all (\<lambda>p. \<not> dropped_kind p) (pages (fst ?sb))"
    using filterStep_eq [of "fst (renderStep env ?sa)" "snd (renderStep env ?sa)"]
    by (simp add: list_all_iff publishable_not_dropped)
  with after have "list_all (\<lambda>p. \<not> dropped_kind p) (pages (fst ?sc))"
    by simp
  with procs have "list_all (\<lambda>p. \<not> dropped_kind p) (pages (fst ?sd))"
    by (simp add: processStep_def)
  with before have "list_all (\<lambda>p. \<not> dropped_kind p) (pages (fst (fst (dispatchEvent env beforeSave ?sd))))"
    by simp
  with res show ?thesis by simp
qed

text \<open>
  Beside the drop policy: the content of a page can be a Uint8Array, and one of
  length zero passes the test \<open>!page.content\<close>. The comment of the filter says that empty
  pages are removed and its warning says "file content is empty"; this empty page is
  kept, without a warning, and the writer receives it.
\<close>

theorem empty_binary_page_kept:
  "page_content empty_binary_page = Bytes []
   \<and> filterStep (fresh_site\<lparr>pages := [empty_binary_page]\<rparr>, []) =
       (fresh_site\<lparr>pages := [empty_binary_page]\<rparr>, [])
   \<and> saved (snd (build (plain_env\<lparr>source_build := (\<lambda>changed. ([empty_binary_page], []))\<rparr>)
        (fresh_site, []))) = [[empty_binary_page]]"
proof -
  have c: "page_content empty_binary_page = Bytes []"
    and u: "data_url empty_binary_page = UrlString ''/pixel.png''"
    and d: "\<not> data_ondemand empty_binary_page"
    by (simp_all add: empty_binary_page_def home_page_def)
  have ns: "\<not> shouldSkip empty_binary_page"
    by (simp add: shouldSkip_def c d)
  then have k: "filter_pages [empty_binary_page] = ([empty_binary_page], [])"
    by (simp add: u)
  then have f: "filterStep (fresh_site\<lparr>pages := [empty_binary_page]\<rparr>, []) =
       (fresh_site\<lparr>pages := [empty_binary_page]\<rparr>, [])"
    by (simp add: filterStep_def)
  have "saved (snd (build (plain_env\<lparr>source_build := (\<lambda>changed. ([empty_binary_page], []))\<rparr>)
        (fresh_site, []))) = [[empty_binary_page]]"
    by (simp add: build_def buildPages_def dispatchEvent_def scanStep_def effect_def
        renderStep_def filterStep_def processStep_def saveStep_def plain_env_def ns u fresh_site_def)
  with c f show ?thesis by simp
qed

text \<open>
  C6, as stated, fails in two ways that the code has by design. The afterRender and
  beforeSave listeners and the processors run between the filter and the writer, and
  the writer gets \<open>site.pages\<close> as they leave it: a page with url false that an
  afterRender listener pushes is in the page set passed to \<open>writer.savePages\<close>. And the
  filter returns for a page with url false before it looks at the content: such a
  page with empty content is removed without a warning.
\<close>

theorem late_page_reaches_writer:
  "saved (snd (build pushing_env (fresh_site, []))) = [[home_page, hidden_page]]
   \<and> data_url hidden_page = UrlFalse
   \<and> page_content hidden_empty_page = Text []
   \<and> filterStep (fresh_site\<lparr>pages := [hidden_empty_page]\<rparr>, []) = (fresh_site\<lparr>pages := []\<rparr>, [])"
proof -
  have ns: "\<not> shouldSkip home_page" "shouldSkip empty_page" "shouldSkip lazy_page"
    by (simp_all add: shouldSkip_def home_page_def empty_page_def lazy_page_def)
  have urls: "data_url home_page = UrlString ''/''" "data_url hidden_page = UrlFalse"
    "data_url empty_page = UrlString ''/empty/''" "data_url lazy_page = UrlString ''/lazy/''"
    "data_url hidden_empty_page = UrlFalse" "page_content hidden_empty_page = Text []"
    by (simp_all add: home_page_def hidden_page_def empty_page_def lazy_page_def
        hidden_empty_page_def)
  have a: "saved (snd (build pushing_env (fresh_site, []))) = [[home_page, hidden_page]]"
    by (simp add: build_def buildPages_def dispatchEvent_def scanStep_def effect_def
        renderStep_def filterStep_def processStep_def saveStep_def pushing_env_def plain_env_def
        ns urls fresh_site_def)
  have b: "filterStep (fresh_site\<lparr>pages := [hidden_empty_page]\<rparr>, []) = (fresh_site\<lparr>pages := []\<rparr>, [])"
    by (simp add: filterStep_def urls)
  from a b urls show ?thesis by simp
qed

text \<open>
  C6, amended: after the filtering step of a build/update cycle the page set holds
  only rendered pages whose url is not false, whose content is neither undefined nor
  the empty string and that are not flagged ondemand, and it holds every rendered page
  with a url, not flagged ondemand, whose content is a string or a Uint8Array that is
  not empty. The step logs nothing but warnings, and for every page it removes whose
  url is not false (content undefined or the empty string, or flagged ondemand) it
  logs the warning "Skipped page <url> (<reason>)", the reason being "page is build
  only on demand" for an ondemand page and "file content is empty" otherwise. The
  page set passed to
  \<open>writer.savePages\<close> is the filtered set as the afterRender and beforeSave listeners
  and the processors, which run after the filter, leave it: it holds no page of the
  removed kinds as long as they put none there.
\<close>

theorem drop_policy:
  "(\<forall>page \<in> set (pages (fst (filterStep (s, effs)))). page \<in> set (pages s) \<and> \<not> dropped_kind page)
   \<and> (\<forall>page \<in> set (pages s).
        data_url page \<noteq> UrlFalse \<and> \<not> data_ondemand page
        \<and> ((\<exists>t. page_content page = Text t \<and> t \<noteq> []) \<or> (\<exists>b. page_content page = Bytes b \<and> b \<noteq> []))
        \<longrightarrow> page \<in> set (pages (fst (filterStep (s, effs)))))
   \<and> (\<exists>warnings. snd (filterStep (s, effs)) = effs @ map LoggerWarn warnings
        \<and> (\<forall>page \<in> set (pages s). dropped_kind page \<and> data_url page \<noteq> UrlFalse \<longrightarrow>
              skip_warning page \<in> set warnings))
   \<and> (\<forall>page. skip_warning page =
        ''Skipped page '' @ url_string (data_url page) @
          (if data_ondemand page then '' (page is build only on demand)''
           else '' (file content is empty)''))
   \<and> ((\<forall>s. list_all (\<lambda>p. \<not> dropped_kind p) (pages s) \<longrightarrow>
            list_all (\<lambda>p. \<not> dropped_kind p) (pages (fst (listeners env afterRender s))))
      \<and> (\<forall>s. list_all (\<lambda>p. \<not> dropped_kind p) (pages s) \<longrightarrow>
            list_all (\<lambda>p. \<not> dropped_kind p) (pages (fst (listeners env beforeSave s))))
      \<and> (\<forall>ps. list_all (\<lambda>p. \<not> dropped_kind p) ps \<longrightarrow>
            list_all (\<lambda>p. \<not> dropped_kind p) (processors_run env ps)) \<longrightarrow>
        (\<forall>ps \<in> set (saved (snd (build env (s, [])))). list_all (\<lambda>p. \<not> dropped_kind p) ps)
      \<and> (\<forall>ps \<in> set (saved (snd (update env changed (s, [])))).
            list_all (\<lambda>p. \<not> dropped_kind p) ps))"
proof (intro conjI impI)
  show "\<forall>page \<in> set (pages (fst (filterStep (s, effs)))). page \<in> set (pages s) \<and> \<not> dropped_kind page"
    by (simp add: filterStep_eq publishable_not_dropped)
next
  show "\<forall>page \<in> set (pages s).
        data_url page \<noteq> UrlFalse \<and> \<not> data_ondemand page
        \<and> ((\<exists>t. page_content page = Text t \<and> t \<noteq> []) \<or> (\<exists>b. page_content page = Bytes b \<and> b \<noteq> []))
        \<longrightarrow> page \<in> set (pages (fst (filterStep (s, effs))))"
    by (auto simp: filterStep_eq publishable_def shouldSkip_def)
next
  let ?ws = "map skip_warning
      (filter (\<lambda>page. data_url page \<noteq> UrlFalse \<and> shouldSkip page) (pages s))"
  have "snd (filterStep (s, effs)) = effs @ map LoggerWarn ?ws"
    by (simp add: filterStep_eq)
  moreover have "\<forall>page \<in> set (pages s). dropped_kind page \<and> data_url page \<noteq> UrlFalse \<longrightarrow>
      skip_warning page \<in> set ?ws"
    by (auto simp: dropped_shouldSkip)
  ultimately show "\<exists>warnings. snd (filterStep (s, effs)) = effs @ map LoggerWarn warnings
        \<and> (\<forall>page \<in> set (pages s). dropped_kind page \<and> data_url page \<noteq> UrlFalse \<longrightarrow>
              skip_warning page \<in> set warnings)"
    by blast
next
  show "\<forall>page. skip_warning page =
        ''Skipped page '' @ url_string (data_url page) @
          (if data_ondemand page then '' (page is build only on demand)''
           else '' (file content is empty)'')"
    by (simp add: skip_warning_def)
next
  assume h: "(\<forall>s. list_all (\<lambda>p. \<not> dropped_kind p) (pages s) \<longrightarrow>
            list_all (\<lambda>p. \<not> dropped_kind p) (pages (fst (listeners env afterRender s))))
      \<and> (\<forall>s. list_all (\<lambda>p. \<not> dropped_kind p) (pages s) \<longrightarrow>
            list_all (\<lambda>p. \<not> dropped_kind p) (pages (fst (listeners env beforeSave s))))
      \<and> (\<forall>ps. list_all (\<lambda>p. \<not> dropped_kind p) ps \<longrightarrow>
            list_all (\<lambda>p. \<not> dropped_kind p) (processors_run env ps))"
  have kept: "list_all (\<lambda>p. \<not> dropped_kind p) (pages (fst (fst (buildPages env st))))"
    if "snd (buildPages env st)" for st
    using buildPages_kept [of env st] h that by blast
  have cycle: "\<forall>ps \<in> set (saved (snd st')). list_all (\<lambda>p. \<not> dropped_kind p) ps"
    if st': "st' = (if \<not> snd (buildPages env st) then fst (buildPages env st)
                    else fst (dispatchEvent env ty (more (saveStep (fst (buildPages env st))))))"
      and more: "\<And>x. fst (more x) = fst x \<and> saved (snd (more x)) = saved (snd x)"
      and empty: "saved (snd st) = []"
    for st st' ty more
  proof (cases "snd (buildPages env st)")
    case False
    with st' empty show ?thesis by simp
  next
    case True
    with st' have "saved (snd st') = [pages (fst (fst (buildPages env st)))]"
      using more [of "saveStep (fst (buildPages env st))"] empty
      by (simp add: saveStep_def)
    with kept [OF True] show ?thesis by simp
  qed
  show "\<forall>ps \<in> set (saved (snd (build env (s, [])))). list_all (\<lambda>p. \<not> dropped_kind p) ps"
  proof (cases "snd (dispatchEvent env beforeBuild (s, []))")
    case False
    then show ?thesis by (simp add: build_unfold)
  next
    case True
    let ?st = "build_at_render env (s, [])"
    have "build env (s, []) = (if \<not> snd (buildPages env ?st) then fst (buildPages env ?st)
        else fst (dispatchEvent env afterBuild (effect LoggerLog (saveStep (fst (buildPages env ?st))))))"
      using True by (simp add: build_unfold)
    moreover have "saved (snd ?st) = []"
      by (simp add: build_at_render_def)
    ultimately show ?thesis
      using cycle [where st = ?st and st' = "build env (s, [])" and ty = afterBuild
          and more = "effect LoggerLog"]
      by simp
  qed
  show "\<forall>ps \<in> set (saved (snd (update env changed (s, [])))). list_all (\<lambda>p. \<not> dropped_kind p) ps"
  proof (cases "snd (dispatchEvent env beforeUpdate (s, []))")
    case False
    then show ?thesis by (simp add: update_unfold)
  next
    case True
    let ?st = "update_at_render env changed (s, [])"
    let ?more = "\<lambda>x. if writer_savePages env (pages (fst (fst (buildPages env ?st)))) \<noteq> []
          \<or> writer_copyFiles env (files (fst (fst (buildPages env ?st)))) \<noteq> []
        then effect LoggerLog x else x"
    have "update env changed (s, []) = (if \<not> snd (buildPages env ?st) then fst (buildPages env ?st)
        else fst (dispatchEvent env afterUpdate (?more (saveStep (fst (buildPages env ?st))))))"
      using True by (simp add: update_unfold)
    moreover have "saved (snd ?st) = []"
      using reload_log [of env changed
          "effect SearcherDeleteCache (fst (dispatchEvent env beforeUpdate (s, [])))"]
      by (auto simp: update_at_render_def)
    ultimately show ?thesis
      using cycle [where st = ?st and st' = "update env changed (s, [])" and ty = afterUpdate
          and more = ?more]
      by simp
  qed
qed

theorem drop_policy_witness:
  "filterStep (fresh_site\<lparr>pages := [home_page, hidden_page, empty_page, lazy_page]\<rparr>, []) =
     (fresh_site\<lparr>pages := [home_page]\<rparr>,
      [LoggerWarn ''Skipped page /empty/ (file content is empty)'',
       LoggerWarn ''Skipped page /lazy/ (page is build only on demand)''])
   \<and> home_page \<in> set (pages (fst (filterStep
        (fresh_site\<lparr>pages := [home_page, hidden_page, empty_page, lazy_page]\<rparr>, []))))
   \<and> saved (snd (build plain_env (fresh_site, []))) = [[home_page]]
   \<and> list_all (\<lambda>p. \<not> dropped_kind p) [home_page]"
proof -
  let ?s = "fresh_site\<lparr>pages := [home_page, hidden_page, empty_page, lazy_page]\<rparr>"
  note policy = drop_policy [of ?s "[]" plain_env "[]"]
  have ns: "\<not> shouldSkip home_page" "shouldSkip empty_page" "shouldSkip lazy_page"
    by (simp_all add: shouldSkip_def home_page_def empty_page_def lazy_page_def)
  have urls: "data_url home_page = UrlString ''/''" "data_url hidden_page = UrlFalse"
    "data_url empty_page = UrlString ''/empty/''" "data_url lazy_page = UrlString ''/lazy/''"
    "\<not> data_ondemand home_page" "\<not> data_ondemand empty_page" "data_ondemand lazy_page"
    "page_content home_page = Text ''<h1>Home</h1>''"
    by (simp_all add: home_page_def hidden_page_def empty_page_def lazy_page_def)
  have a: "filterStep (?s, []) =
     (fresh_site\<lparr>pages := [home_page]\<rparr>,
      [LoggerWarn ''Skipped page /empty/ (file content is empty)'',
       LoggerWarn ''Skipped page /lazy/ (page is build only on demand)''])"
    by (simp add: filterStep_def ns urls skip_warning_def)
  have "home_page \<in> set (pages ?s)"
    "data_url home_page \<noteq> UrlFalse \<and> \<not> data_ondemand home_page
      \<and> ((\<exists>t. page_content home_page = Text t \<and> t \<noteq> [])
         \<or> (\<exists>b. page_content home_page = Bytes b \<and> b \<noteq> []))"
    by (simp_all add: urls)
  with policy have b: "home_page \<in> set (pages (fst (filterStep (?s, []))))"
    by blast
  have "(\<forall>s. list_all (\<lambda>p. \<not> dropped_kind p) (pages s) \<longrightarrow>
            list_all (\<lambda>p. \<not> dropped_kind p) (pages (fst (listeners plain_env afterRender s))))
      \<and> (\<forall>s. list_all (\<lambda>p. \<not> dropped_kind p) (pages s) \<longrightarrow>
            list_all (\<lambda>p. \<not> dropped_kind p) (pages (fst (listeners plain_env beforeSave s))))
      \<and> (\<forall>ps. list_all (\<lambda>p. \<not> dropped_kind p) ps \<longrightarrow>
            list_all (\<lambda>p. \<not> dropped_kind p) (processors_run plain_env ps))"
    by (simp add: plain_env_def)
  with policy have "\<forall>ps \<in> set (saved (snd (build plain_env (?s, [])))).
      list_all (\<lambda>p. \<not> dropped_kind p) ps"
    by blast
  moreover have "saved (snd (build plain_env (?s, []))) = [[home_page]]"
    by (simp add: build_def buildPages_def dispatchEvent_def scanStep_def effect_def
        renderStep_def filterStep_def processStep_def saveStep_def plain_env_def ns urls
        fresh_site_def)
  ultimately have d: "list_all (\<lambda>p. \<not> dropped_kind p) [home_page]"
    by simp
  have c: "saved (snd (build plain_env (fresh_site, []))) = [[home_page]]"
    by (simp add: build_def buildPages_def dispatchEvent_def scanStep_def effect_def
        renderStep_def filterStep_def processStep_def saveStep_def plain_env_def ns urls
        fresh_site_def)
  from a b c d show ?thesis by blast
qed

section \<open>Properties of merge\<close>

lemma get_set_prop: "get_prop (set_prop m k v) k' = (if k' = k then v else get_prop m k')"
  by (induction m) auto

lemma merge_entries_get:
  "distinct (map fst es) \<Longrightarrow>
     get_prop (merge_entries m es) k =
       (case map_of es k of
          None \<Rightarrow> get_prop m k
        | Some v \<Rightarrow>
            if js_typeof (get_prop m k) = ''object'' \<and> js_typeof v = ''object''
               \<and> \<not> isArray (get_prop m k)
            then merge (get_prop m k) v else v)"
proof (induction es arbitrary: m)
  case Nil
  then show ?case by simp
next
  case (Cons e es)
  obtain key val where e: "e = (key, val)" by (cases e)
  let ?new = "if js_typeof (get_prop m key) = ''object'' \<and> js_typeof val = ''object''
               \<and> \<not> isArray (get_prop m key)
            then merge (get_prop m key) val else val"
  have step: "merge_entries m (e # es) = merge_entries (set_prop m key ?new) es"
    by (simp add: e)
  from Cons.prems e have d: "distinct (map fst es)" and notin: "map_of es key = None"
    by (auto simp: map_of_eq_None_iff)
  let ?m' = "set_prop m key ?new"
  have "get_prop (merge_entries m (e # es)) k = get_prop (merge_entries ?m' es) k"
    by (simp only: step)
  also have "\<dots> = (case map_of es k of
          None \<Rightarrow> get_prop ?m' k
        | Some v \<Rightarrow>
            if js_typeof (get_prop ?m' k) = ''object'' \<and> js_typeof v = ''object''
               \<and> \<not> isArray (get_prop ?m' k)
            then merge (get_prop ?m' k) v else v)"
    by (rule Cons.IH [OF d])
  also have "\<dots> = (case map_of (e # es) k of
          None \<Rightarrow> get_prop m k
        | Some v \<Rightarrow>
            if js_typeof (get_prop m k) = ''object'' \<and> js_typeof v = ''object''
               \<and> \<not> isArray (get_prop m k)
            then merge (get_prop m k) v else v)"
  proof (cases "k = key")
    case True
    with notin show ?thesis
      by (simp add: e get_set_prop)
  next
    case False
    then show ?thesis
      by (simp add: e get_set_prop split: option.splits)
  qed
  finally show ?case .
qed

text \<open>
  C5: for a key whose user value is an array the result of merge is to hold exactly
  that array. The test of the loop guards against arrays with
  \<open>!Array.isArray(merged[key])\<close>, on the defaults' side only: at the input
  \<open>merge({options: {x: 1}}, {options: [7, 8]})\<close> the user's array passes the test
  \<open>typeof value === "object"\<close>, is merged into a copy of the defaults' object, its
  elements under their indices, and the result holds an object, not the array.
\<close>

theorem merge_array_into_object:
  "\<not> isArray (get_prop (own_entries
        (merge (JObj [(''options'', JObj [(''x'', JNum 1)])])
               (JObj [(''options'', JArr [JNum 7, JNum 8])]))) ''options'')
   \<and> map (get_prop (own_entries (get_prop (own_entries
        (merge (JObj [(''options'', JObj [(''x'', JNum 1)])])
               (JObj [(''options'', JArr [JNum 7, JNum 8])]))) ''options'')))
        [''x'', ''0'', ''1''] = [JNum 1, JNum 7, JNum 8]"
proof -
  have "merge (JObj [(''options'', JObj [(''x'', JNum 1)])])
         (JObj [(''options'', JArr [JNum 7, JNum 8])])
     = JObj [(''options'', JObj [(''x'', JNum 1), (''0'', JNum 7), (''1'', JNum 8)])]"
    by (simp add: merge.simps(1) indexed_def show_nat.simps digit_char_def upt_rec)
  then show ?thesis by simp
qed

text \<open>
  The same test takes \<open>null\<close> for an object, since \<open>typeof null\<close> is \<open>"object"\<close>: a user
  value \<open>null\<close> does not replace a defaults' object, and a user's array over a defaults'
  \<open>null\<close> becomes an object.
\<close>

lemma merge_null_cases:
  "get_prop (own_entries (merge (JObj [(''a'', JObj [(''x'', JNum 1)])]) (JObj [(''a'', JNull)]))) ''a''
     = JObj [(''x'', JNum 1)]"
  "\<not> isArray (get_prop (own_entries (merge (JObj [(''k'', JNull)]) (JObj [(''k'', JArr [JNum 7, JNum 8])]))) ''k'')"
  by (simp_all add: merge.simps(1) indexed_def show_nat.simps digit_char_def upt_rec)

text \<open>
  What merge does at each key, for every defaults object and user object: it keeps the
  defaults' value at a key the user does not have; where both values have
  \<open>typeof "object"\<close> and the defaults' value is not an array it merges them by
  itself, so plain objects on both sides are deep-merged; everywhere else the user's
  value wins, so a user's scalar (not \<open>null\<close>), function or \<open>undefined\<close> always does,
  and a user's array does over a defaults' value that is absent, an array, or a scalar
  other than \<open>null\<close>.
\<close>

lemma merge_at_each_key:
  assumes "distinct (map fst user)"
  shows "\<exists>merged. merge (JObj defaults) (JObj user) = JObj merged
     \<and> (\<forall>key. key \<notin> fst ` set user \<longrightarrow> get_prop merged key = get_prop defaults key)
     \<and> (\<forall>key a b. get_prop defaults key = JObj a \<and> (key, JObj b) \<in> set user \<longrightarrow>
            get_prop merged key = merge (JObj a) (JObj b))
     \<and> (\<forall>key val. (key, val) \<in> set user \<and> js_typeof val \<noteq> ''object'' \<longrightarrow>
            get_prop merged key = val)
     \<and> (\<forall>key xs. (key, JArr xs) \<in> set user
            \<and> (js_typeof (get_prop defaults key) \<noteq> ''object'' \<or> isArray (get_prop defaults key)) \<longrightarrow>
            get_prop merged key = JArr xs)"
proof -
  let ?merged = "merge_entries defaults user"
  have m: "merge (JObj defaults) (JObj user) = JObj ?merged"
    by (simp add: merge.simps(1))
  note get = merge_entries_get [OF assms, of defaults]
  have absent: "get_prop ?merged key = get_prop defaults key" if "key \<notin> fst ` set user" for key
  proof -
    from that have "map_of user key = None"
      by (simp add: map_of_eq_None_iff)
    with get [of key] show ?thesis by simp
  qed
  have present: "get_prop ?merged key =
      (if js_typeof (get_prop defaults key) = ''object'' \<and> js_typeof val = ''object''
          \<and> \<not> isArray (get_prop defaults key)
       then merge (get_prop defaults key) val else val)"
    if "(key, val) \<in> set user" for key val
  proof -
    from that assms have "map_of user key = Some val"
      by simp
    with get [of key] show ?thesis by simp
  qed
  have deep: "get_prop ?merged key = merge (JObj a) (JObj b)"
    if "get_prop defaults key = JObj a \<and> (key, JObj b) \<in> set user" for key a b
    using that present [of key "JObj b"] by simp
  have scalar: "get_prop ?merged key = val"
    if "(key, val) \<in> set user \<and> js_typeof val \<noteq> ''object''" for key val
    using that present [of key val] by simp
  have array: "get_prop ?merged key = JArr xs"
    if "(key, JArr xs) \<in> set user
        \<and> (js_typeof (get_prop defaults key) \<noteq> ''object'' \<or> isArray (get_prop defaults key))"
    for key xs
    using that present [of key "JArr xs"] by auto
  from m absent deep scalar array show ?thesis
    by blast
qed

lemma merge_at_each_key_example:
  "get_prop (own_entries (merge (JObj plugin_defaults) (JObj user_options))) ''extensions''
     = JArr [JStr ''.css'', JStr ''.js'']
   \<and> get_prop (own_entries (merge (JObj plugin_defaults) (JObj user_options))) ''options''
     = JObj [(''keep_comments'', JBool False), (''minify_js'', JBool False)]
   \<and> get_prop (own_entries (merge (JObj plugin_defaults) (JObj user_options))) ''name''
     = JStr ''minify''"
proof -
  have d: "distinct (map fst user_options)"
    by (simp add: user_options_def)
  from merge_at_each_key [OF d, of plugin_defaults] obtain merged where
    m: "merge (JObj plugin_defaults) (JObj user_options) = JObj merged"
    and deep: "\<And>key a b. get_prop plugin_defaults key = JObj a \<and> (key, JObj b) \<in> set user_options \<Longrightarrow>
            get_prop merged key = merge (JObj a) (JObj b)"
    and scalar: "\<And>key val. (key, val) \<in> set user_options \<and> js_typeof val \<noteq> ''object'' \<Longrightarrow>
            get_prop merged key = val"
    and array: "\<And>key xs. (key, JArr xs) \<in> set user_options
            \<and> (js_typeof (get_prop plugin_defaults key) \<noteq> ''object''
               \<or> isArray (get_prop plugin_defaults key)) \<Longrightarrow>
            get_prop merged key = JArr xs"
    by blast
  have "get_prop merged ''extensions'' = JArr [JStr ''.css'', JStr ''.js'']"
    by (rule array) (simp add: user_options_def plugin_defaults_def)
  moreover have "get_prop merged ''options'' =
      merge (JObj [(''keep_comments'', JBool False), (''minify_js'', JBool True)])
        (JObj [(''minify_js'', JBool False)])"
    by (rule deep) (simp add: user_options_def plugin_defaults_def)
  moreover have "merge (JObj [(''keep_comments'', JBool False), (''minify_js'', JBool True)])
        (JObj [(''minify_js'', JBool False)])
      = JObj [(''keep_comments'', JBool False), (''minify_js'', JBool False)]"
    by (simp add: merge.simps(1))
  moreover have "get_prop merged ''name'' = JStr ''minify''"
    by (rule scalar) (simp add: user_options_def)
  ultimately show ?thesis
    by (simp add: m)
qed

section \<open>Properties of merge on the heap\<close>

lemma heap_set_length [simp]: "length (heap_set h a key val) = length h"
  by (simp add: heap_set_def split: hobj.splits)

lemma heap_set_take: "b \<le> a \<Longrightarrow> take b (heap_set h a key val) = take b h"
  by (simp add: heap_set_def split: hobj.splits)

lemma hmerge_frame:
  "(hmerge fuel h defaults user = Some (h', r) \<longrightarrow>
      r = HRef (length h) \<and> length h < length h' \<and> take (length h) h' = h)"
  "(hmerge_entries fuel h merged es = Some h'' \<and> merged < length h \<longrightarrow>
      length h \<le> length h'' \<and> take merged h'' = take merged h)"
proof (induction fuel h defaults user and fuel h merged es arbitrary: h' r and h''
    rule: hmerge_hmerge_entries.induct)
  case (1 h defaults user)
  then show ?case by simp
next
  case (2 fuel h defaults user)
  show ?case
  proof (cases "h_truthy user")
    case False
    then show ?thesis by (auto simp: Let_def)
  next
    case True
    let ?h1 = "h @ [HObject (h_own_entries h defaults)]"
    show ?thesis
    proof
      assume "hmerge (Suc fuel) h defaults user = Some (h', r)"
      with True have e: "hmerge_entries fuel ?h1 (length h) (h_own_entries ?h1 user) = Some h'"
        and r: "r = HRef (length h)"
        by (auto simp: Let_def split: option.splits)
      from "2.IH" [OF refl refl _ , of h'] True e
      have "length ?h1 \<le> length h' \<and> take (length h) h' = take (length h) ?h1"
        by simp
      with r show "r = HRef (length h) \<and> length h < length h' \<and> take (length h) h' = h"
        by simp
    qed
  qed
next
  case (3 fuel h merged)
  then show ?case by simp
next
  case (4 fuel h merged key val rest)
  let ?cur = "heap_get h merged key"
  show ?case
  proof (cases "h_typeof ?cur = ''object'' \<and> h_typeof val = ''object'' \<and> \<not> h_isArray h ?cur")
    case True
    show ?thesis
    proof
      assume "hmerge_entries fuel h merged ((key, val) # rest) = Some h'' \<and> merged < length h"
      then have a: "hmerge_entries fuel h merged ((key, val) # rest) = Some h''"
        and lt: "merged < length h" by simp_all
      with True obtain h1 r1 where m: "hmerge fuel h ?cur val = Some (h1, r1)"
        and e: "hmerge_entries fuel (heap_set h1 merged key r1) merged rest = Some h''"
        by (auto split: option.splits)
      from "4.IH"(1) [OF True, of h1 r1] m
      have f1: "length h < length h1" "take (length h) h1 = h"
        by simp_all
      from "4.IH"(2) [OF True m refl, of h''] e lt f1
      have f2: "length h1 \<le> length h''" "take merged h'' = take merged (heap_set h1 merged key r1)"
        by simp_all
      have "take merged (heap_set h1 merged key r1) = take merged h1"
        by (rule heap_set_take) simp
      moreover have "take merged h1 = take merged h"
      proof -
        from lt have "take merged h1 = take merged (take (length h) h1)"
          by (simp add: min_absorb1)
        with f1 show ?thesis by simp
      qed
      ultimately show "length h \<le> length h'' \<and> take merged h'' = take merged h"
        using f1 f2 by simp
    qed
  next
    case False
    show ?thesis
    proof
      assume "hmerge_entries fuel h merged ((key, val) # rest) = Some h'' \<and> merged < length h"
      then have a: "hmerge_entries fuel h merged ((key, val) # rest) = Some h''"
        and lt: "merged < length h" by simp_all
      with False have e: "hmerge_entries fuel (heap_set h merged key val) merged rest = Some h''"
        by auto
      from "4.IH"(3) [OF False, of h''] e lt
      have "length h \<le> length h''" "take merged h'' = take merged (heap_set h merged key val)"
        by simp_all
      then show "length h \<le> length h'' \<and> take merged h'' = take merged h"
        by (simp add: heap_set_take)
    qed
  qed
qed


lemma extends_length: "take (length h) h' = h \<Longrightarrow> length h \<le> length h'"
proof -
  assume "take (length h) h' = h"
  then have "length (take (length h) h') = length h"
    by simp
  then show ?thesis
    by simp
qed

lemma extends_nth: "take (length h) h' = h \<Longrightarrow> a < length h \<Longrightarrow> obj_at h' a = obj_at h a"
proof -
  assume t: "take (length h) h' = h" and a: "a < length h"
  from t have "length h \<le> length h'"
    by (rule extends_length)
  moreover from t a have "h' ! a = h ! a"
    by (metis nth_take)
  ultimately show ?thesis
    using a by (simp add: obj_at_def)
qed

lemma depth_ok_extends:
  "depth_ok n h v \<Longrightarrow> take (length h) h' = h \<Longrightarrow> depth_ok n h' v"
proof (induction n h v rule: depth_ok.induct)
  case (2 n h a)
  from "2.prems" have a: "a < length h" and
    all: "list_all (\<lambda>kv. h_typeof (snd kv) = ''object'' \<longrightarrow> depth_ok n h (snd kv))
        (h_own_entries h (HRef a))"
    by simp_all
  from "2.prems"(2) have len: "length h \<le> length h'"
    by (rule extends_length)
  have same: "h_own_entries h' (HRef a) = h_own_entries h (HRef a)"
    using extends_nth [OF "2.prems"(2) a] by simp
  have "list_all (\<lambda>kv. h_typeof (snd kv) = ''object'' \<longrightarrow> depth_ok n h' (snd kv))
        (h_own_entries h (HRef a))"
    unfolding list_all_iff
  proof (intro ballI impI)
    fix kv assume kv: "kv \<in> set (h_own_entries h (HRef a))" and ty: "h_typeof (snd kv) = ''object''"
    with all have "depth_ok n h (snd kv)"
      by (simp add: list_all_iff)
    with "2.IH" [OF kv] "2.prems"(2) ty show "depth_ok n h' (snd kv)"
      by simp
  qed
  with a len same show ?case by simp
qed simp_all

lemma hmerge_returns:
  "(depth_ok fuel h user \<longrightarrow> (\<exists>h' r. hmerge fuel h defaults user = Some (h', r)))"
  "(take (length hb) h = hb \<and> length hb \<le> merged \<and> merged < length h
      \<and> list_all (\<lambda>kv. h_typeof (snd kv) = ''object'' \<longrightarrow> depth_ok fuel hb (snd kv)) es \<longrightarrow>
    (\<exists>h''. hmerge_entries fuel h merged es = Some h''))"
proof (induction fuel h defaults user and fuel h merged es arbitrary: and hb
    rule: hmerge_hmerge_entries.induct)
  case (1 h defaults user)
  then show ?case by simp
next
  case (2 fuel h defaults user)
  show ?case
  proof (cases "h_truthy user")
    case False
    then show ?thesis by (simp add: Let_def)
  next
    case True
    let ?h1 = "h @ [HObject (h_own_entries h defaults)]"
    show ?thesis
    proof
      assume ok: "depth_ok (Suc fuel) h user"
      have "list_all (\<lambda>kv. h_typeof (snd kv) = ''object'' \<longrightarrow> depth_ok fuel h (snd kv))
          (h_own_entries ?h1 user)"
      proof (cases user)
        case (HRef a)
        with ok have a: "a < length h" by simp
        then have "obj_at ?h1 a = obj_at h a"
          by (simp add: obj_at_def nth_append)
        with ok HRef show ?thesis by simp
      next
        case (HStr s)
        then show ?thesis
          by (auto simp: list_all_iff indexed_def dest!: set_zip_rightD)
      qed simp_all
      with "2.IH" [OF refl refl, of h] True
      obtain h2 where "hmerge_entries fuel ?h1 (length h) (h_own_entries ?h1 user) = Some h2"
        by auto
      with True show "\<exists>h' r. hmerge (Suc fuel) h defaults user = Some (h', r)"
        by (simp add: Let_def)
    qed
  qed
next
  case (3 fuel h merged)
  then show ?case by simp
next
  case (4 fuel h merged key val rest)
  let ?cur = "heap_get h merged key"
  show ?case
  proof
    assume pre: "take (length hb) h = hb \<and> length hb \<le> merged \<and> merged < length h
      \<and> list_all (\<lambda>kv. h_typeof (snd kv) = ''object'' \<longrightarrow> depth_ok fuel hb (snd kv))
          ((key, val) # rest)"
    then have base: "take (length hb) h = hb" and lo: "length hb \<le> merged"
      and hi: "merged < length h"
      and here: "h_typeof val = ''object'' \<longrightarrow> depth_ok fuel hb val"
      and later: "list_all (\<lambda>kv. h_typeof (snd kv) = ''object'' \<longrightarrow> depth_ok fuel hb (snd kv)) rest"
      by simp_all
    show "\<exists>h''. hmerge_entries fuel h merged ((key, val) # rest) = Some h''"
    proof (cases "h_typeof ?cur = ''object'' \<and> h_typeof val = ''object'' \<and> \<not> h_isArray h ?cur")
      case True
      with here base have "depth_ok fuel h val"
        using depth_ok_extends [of fuel hb val h] by simp
      with "4.IH"(1) [OF True] obtain h1 r1 where m: "hmerge fuel h ?cur val = Some (h1, r1)"
        by blast
      from hmerge_frame(1) [of fuel h ?cur val h1 r1] m
      have f: "length h < length h1" "take (length h) h1 = h"
        by simp_all
      have "take (length hb) h1 = take (length hb) (take (length h) h1)"
        using lo hi by (simp add: min_absorb1)
      with f base have "take (length hb) h1 = hb"
        by simp
      then have "take (length hb) (heap_set h1 merged key r1) = hb"
        using lo by (simp add: heap_set_take)
      with "4.IH"(2) [OF True m refl, of hb] lo hi f later
      obtain h'' where "hmerge_entries fuel (heap_set h1 merged key r1) merged rest = Some h''"
        by auto
      with True m show ?thesis by simp
    next
      case False
      have "take (length hb) (heap_set h merged key val) = hb"
        using lo base by (simp add: heap_set_take)
      with "4.IH"(3) [OF False, of hb] lo hi later
      obtain h'' where "hmerge_entries fuel (heap_set h merged key val) merged rest = Some h''"
        by auto
      with False show ?thesis by auto
    qed
  qed
qed

text \<open>
  C10: whenever merge returns, its result is a reference to an object allocated by the
  call, at an address that did not exist before, and every object that existed before
  the call, so both arguments and all their nested objects, is unchanged: the new heap
  is the old one followed by the new objects. And merge does return, given call depth
  for the nesting of \<open>user\<close>, whenever the objects nested in \<open>user\<close> are finitely deep.
\<close>

theorem merge_fresh_and_frame:
  "(\<forall>fuel h' r. hmerge fuel h defaults user = Some (h', r) \<longrightarrow>
        r = HRef (length h) \<and> length h < length h' \<and> take (length h) h' = h)
   \<and> (depth_ok n h user \<longrightarrow> (\<exists>h' r. hmerge n h defaults user = Some (h', r)))"
  using hmerge_frame(1) [of _ h defaults user] hmerge_returns(1) [of n h user defaults]
  by blast

theorem merge_fresh_and_frame_witness:
  "hmerge 2 example_heap (HRef 0) (HRef 2) =
     Some (example_heap @
             [HObject [(''options'', HRef 6), (''extensions'', HRef 4)],
              HObject [(''x'', HNum 1), (''y'', HNum 2)]],
           HRef 5)
   \<and> take (length example_heap) (fst (the (hmerge 2 example_heap (HRef 0) (HRef 2)))) = example_heap"
proof -
  have ok: "depth_ok 2 example_heap (HRef 2)"
    by (simp add: example_heap_def obj_at_def numeral_2_eq_2)
  note frame = merge_fresh_and_frame [of example_heap "HRef 0" "HRef 2" 2]
  from frame ok obtain h' r where res: "hmerge 2 example_heap (HRef 0) (HRef 2) = Some (h', r)"
    by blast
  with frame have "take (length example_heap) h' = example_heap"
    by blast
  with res have a: "take (length example_heap) (fst (the (hmerge 2 example_heap (HRef 0) (HRef 2))))
      = example_heap"
    by simp
  have b: "hmerge 2 example_heap (HRef 0) (HRef 2) =
     Some (example_heap @
             [HObject [(''options'', HRef 6), (''extensions'', HRef 4)],
              HObject [(''x'', HNum 1), (''y'', HNum 2)]],
           HRef 5)"
    by (simp add: example_heap_def heap_get_def heap_set_def obj_at_def numeral_2_eq_2)
  from a b show ?thesis by blast
qed

section \<open>Properties of concurrent\<close>

lemma conc_inv_start: "conc_inv (start xs)"
  by (simp add: conc_inv_def start_def live_def)

lemma capped_start: "0 < c \<Longrightarrow> capped c (start xs)"
  by (simp add: capped_def start_def)

lemma live_push: "live (s\<lparr>items := r, tasks := tasks s @ [Running], executing := e, main := m\<rparr>)
    = insert (length (tasks s)) (live s)"
  by (auto simp: live_def nth_append less_Suc_eq)

lemma live_settle:
  "i < length (tasks s) \<Longrightarrow> tasks s ! i = Running \<Longrightarrow> st \<noteq> Removed \<Longrightarrow>
     live (s\<lparr>tasks := (tasks s)[i := st]\<rparr>) = live s"
  by (auto simp: live_def nth_list_update split: if_splits)

lemma live_callback:
  "i < length (tasks s) \<Longrightarrow>
     live (s\<lparr>tasks := (tasks s)[i := Removed], executing := e\<rparr>) = live s - {i}"
  by (auto simp: live_def nth_list_update)

lemma live_main [simp]: "live (s\<lparr>main := m\<rparr>) = live s"
  by (simp add: live_def)

lemma step_Next_push:
  assumes "step limit Next s = Some s'" and "items s = item # rest"
  shows "main s = Looping"
    and "s' = s\<lparr>items := rest, tasks := tasks s @ [Running],
      executing := executing s @ [length (tasks s)],
      main := (if length_reaches (Suc (length (executing s))) limit
               then Racing (executing s @ [length (tasks s)]) else Looping)\<rparr>"
  using assms by (auto simp: Let_def split: if_splits)

lemma step_Callback:
  assumes "conc_inv s" and "step limit (Callback i) s = Some s'"
  shows "i \<in> set (executing s)"
    and "s' = s\<lparr>tasks := (tasks s)[i := Removed], executing := remove1 i (executing s)\<rparr>"
    and "i < length (tasks s)"
proof -
  from assms(2) have i: "i < length (tasks s)" and r: "tasks s ! i = Returned"
    and s': "s' = s\<lparr>tasks := (tasks s)[i := Removed], executing := splice_out i (executing s)\<rparr>"
    by (auto split: if_splits)
  from assms(1) have "set (executing s) = live s"
    by (simp add: conc_inv_def)
  with i r show mem: "i \<in> set (executing s)"
    by (simp add: live_def)
  with s' show "s' = s\<lparr>tasks := (tasks s)[i := Removed], executing := remove1 i (executing s)\<rparr>"
    by (simp add: splice_out_def)
  from i show "i < length (tasks s)" .
qed

lemma conc_inv_Next:
  assumes "conc_inv s" and "step limit Next s = Some s'"
  shows "conc_inv s'"
proof (cases "items s")
  case Nil
  with assms show ?thesis
    by (auto simp: conc_inv_def split: if_splits)
next
  case (Cons item rest)
  let ?p = "length (tasks s)"
  note st = step_Next_push [OF assms(2) Cons]
  from assms(1) have d: "distinct (executing s)" and l: "set (executing s) = live s"
    by (simp_all add: conc_inv_def)
  have fresh: "?p \<notin> set (executing s)"
    using l by (simp add: live_def)
  have live': "live s' = insert ?p (live s)"
    unfolding st(2) by (rule live_push)
  show ?thesis
  proof (cases "length_reaches (Suc (length (executing s))) limit")
    case True
    with st(2) d l fresh live' show ?thesis
      by (auto simp: conc_inv_def)
  next
    case False
    with st(2) d l fresh live' show ?thesis
      by (auto simp: conc_inv_def)
  qed
qed

lemma conc_inv_Throw:
  assumes "conc_inv s" and "step limit Throw s = Some s'"
  shows "conc_inv s'"
  using assms by (auto simp: conc_inv_def split: if_splits)

lemma conc_inv_Settle:
  assumes "conc_inv s" and "step limit (Settle i ok) s = Some s'"
  shows "conc_inv s'"
proof -
  from assms(2) have i: "i < length (tasks s)" and r: "tasks s ! i = Running"
    and s': "s' = s\<lparr>tasks := (tasks s)[i := (if ok then Returned else Failed)]\<rparr>"
    by (auto split: if_splits)
  have "live s' = live s"
    unfolding s' by (rule live_settle [OF i r]) simp
  with assms(1) s' show ?thesis
    by (auto simp: conc_inv_def split: Main.splits)
qed

lemma conc_inv_Callback:
  assumes "conc_inv s" and "step limit (Callback i) s = Some s'"
  shows "conc_inv s'"
proof -
  note cb = step_Callback [OF assms]
  from assms(1) have d: "distinct (executing s)" and l: "set (executing s) = live s"
    by (simp_all add: conc_inv_def)
  have live': "live s' = live s - {i}"
    unfolding cb(2) by (rule live_callback [OF cb(3)])
  have set': "set (executing s') = set (executing s) - {i}"
    using d by (simp add: cb(2))
  have d': "distinct (executing s')"
    using d by (simp add: cb(2))
  have m: "main s' = main s" and it: "items s' = items s"
    by (simp_all add: cb(2))
  show ?thesis
  proof (cases "main s")
    case Resolved
    with assms(1) cb(1) show ?thesis by (simp add: conc_inv_def)
  next
    case Looping
    with d' set' live' l m show ?thesis
      by (simp add: conc_inv_def)
  next
    case (Racing snapshot)
    with assms(1) d' set' live' l m show ?thesis
      by (auto simp: conc_inv_def)
  next
    case (Joining snapshot)
    with assms(1) d' set' live' l m it show ?thesis
      by (auto simp: conc_inv_def)
  next
    case Thrown
    with d' set' live' l m show ?thesis
      by (simp add: conc_inv_def)
  qed
qed

lemma conc_inv_Resume:
  assumes "conc_inv s" and "step limit (Resume ok) s = Some s'"
  shows "conc_inv s'"
proof (cases "main s")
  case (Racing snapshot)
  with assms show ?thesis
    by (cases ok) (auto simp: conc_inv_def split: if_splits)
next
  case (Joining snapshot)
  show ?thesis
  proof (cases ok)
    case False
    with assms Joining show ?thesis
      by (auto simp: conc_inv_def split: if_splits)
  next
    case True
    with assms(2) Joining have all: "\<forall>i \<in> set snapshot. tasks s ! i = Removed"
      and s': "s' = s\<lparr>main := Resolved\<rparr>"
      by (auto simp: list_all_iff split: if_splits)
    from assms(1) Joining have l: "set (executing s) = live s"
      and sub: "live s \<subseteq> set snapshot" and it: "items s = []"
      by (simp_all add: conc_inv_def)
    have "executing s = []"
    proof (cases "executing s")
      case Nil
      then show ?thesis .
    next
      case (Cons i rest)
      then have "i \<in> live s"
        using l by auto
      with sub all show ?thesis
        by (auto simp: live_def)
    qed
    with assms(1) s' it show ?thesis
      by (simp add: conc_inv_def)
  qed
qed (use assms in auto)

lemma conc_inv_step: "conc_inv s \<Longrightarrow> step limit e s = Some s' \<Longrightarrow> conc_inv s'"
  by (cases e) (auto intro: conc_inv_Next conc_inv_Throw conc_inv_Settle conc_inv_Callback
      conc_inv_Resume)

lemma capped_step:
  assumes inv: "conc_inv s" and cap: "capped c s"
    and waits: "\<forall>n \<ge> c. length_reaches n limit"
    and st: "step limit e s = Some s'"
  shows "capped c s'"
proof (cases e)
  case Next
  show ?thesis
  proof (cases "items s")
    case Nil
    with st Next cap show ?thesis
      by (auto simp: capped_def split: if_splits)
  next
    case (Cons item rest)
    note p = step_Next_push [OF st [unfolded Next] Cons]
    from cap p(1) have lt: "length (executing s) < c"
      by (simp add: capped_def)
    show ?thesis
    proof (cases "length_reaches (Suc (length (executing s))) limit")
      case True
      with p(2) lt show ?thesis
        by (simp add: capped_def)
    next
      case False
      with waits have "Suc (length (executing s)) < c"
        by (meson not_le_imp_less)
      with False p(2) show ?thesis
        by (simp add: capped_def)
    qed
  qed
next
  case Throw
  with st cap show ?thesis
    by (auto simp: capped_def split: if_splits)
next
  case (Settle i ok)
  with st cap show ?thesis
    by (auto simp: capped_def split: if_splits Main.splits)
next
  case (Callback i)
  note cb = step_Callback [OF inv st [unfolded Callback]]
  from cb(1) have "0 < length (executing s)"
    by (rule length_pos_if_in_set)
  with cb(1) have "length (executing s') < length (executing s)"
    by (simp add: cb(2) length_remove1)
  moreover have "main s' = main s"
    by (simp add: cb(2))
  ultimately show ?thesis
    using cap by (auto simp: capped_def split: Main.splits)
next
  case (Resume ok)
  show ?thesis
  proof (cases "main s")
    case (Racing snapshot)
    show ?thesis
    proof (cases ok)
      case False
      with st Resume Racing cap show ?thesis
        by (auto simp: capped_def split: if_splits)
    next
      case True
      with st Resume Racing obtain i where i: "i \<in> set snapshot" "tasks s ! i = Removed"
        and s': "s' = s\<lparr>main := Looping\<rparr>"
        by (auto simp: list_ex_iff split: if_splits)
      from inv Racing have d: "distinct (executing s)" and l: "set (executing s) = live s"
        and ds: "distinct snapshot" and sub: "live s \<subseteq> set snapshot"
        by (simp_all add: conc_inv_def)
      from cap Racing have ls: "length snapshot \<le> c"
        by (simp add: capped_def)
      from i l have "i \<notin> set (executing s)"
        by (simp add: live_def)
      with sub l i have "set (executing s) \<subset> set snapshot"
        by blast
      then have "card (set (executing s)) < card (set snapshot)"
        by (simp add: psubset_card_mono)
      with d ds have "length (executing s) < length snapshot"
        by (simp add: distinct_card)
      with ls s' show ?thesis
        by (simp add: capped_def)
    qed
  next
    case (Joining snapshot)
    with st Resume cap show ?thesis
      by (auto simp: capped_def split: if_splits)
  qed (use st Resume in auto)
qed

lemma invariants_exec:
  "conc_inv s \<Longrightarrow> exec limit es s = Some s' \<Longrightarrow>
     conc_inv s' \<and> ((\<forall>n \<ge> c. length_reaches n limit) \<longrightarrow> capped c s \<longrightarrow> capped c s')"
proof (induction es arbitrary: s)
  case Nil
  then show ?case by simp
next
  case (Cons e es)
  from Cons.prems(2) obtain s1 where s1: "step limit e s = Some s1" "exec limit es s1 = Some s'"
    by (auto split: option.splits)
  from conc_inv_step [OF Cons.prems(1) s1(1)] have i1: "conc_inv s1" .
  from Cons.IH [OF i1 s1(2)] capped_step [OF Cons.prems(1) _ _ s1(1)]
  show ?case
    by blast
qed

lemma pending_le_executing:
  assumes "conc_inv s"
  shows "pending s \<le> length (executing s)"
proof -
  have "pending s = card {i. i < length (tasks s) \<and> tasks s ! i = Running}"
    by (simp add: pending_def length_filter_conv_card)
  also have "\<dots> \<le> card (live s)"
    by (rule card_mono) (auto simp: live_def)
  also have "\<dots> = length (executing s)"
    using assms by (metis distinct_card conc_inv_def)
  finally show ?thesis .
qed

lemma pending_capped:
  assumes run: "exec limit es (start xs) = Some s"
    and c: "0 < c" and waits: "\<forall>n \<ge> c. length_reaches n limit"
  shows "pending s \<le> c"
proof -
  from invariants_exec [OF conc_inv_start run, of c] capped_start [OF c] waits
  have "conc_inv s" and "capped c s"
    by blast+
  then show ?thesis
    using pending_le_executing [of s] by (simp add: capped_def)
qed

text \<open>
  C9: in every state of every execution of \<open>concurrent(iterable, iteratorFn, limit)\<close>
  the number of pending invocations of iteratorFn is at most the limit: at most 200
  when the caller gives no limit, and at most \<open>n\<close> for a limit that is a whole number
  \<open>n\<close> of at least one. And when concurrent has resolved, the iterable is used up and
  every invocation that was started has settled (each one fulfilled, its callback
  run).
\<close>

theorem concurrent_bound:
  assumes "exec (limit_or_default limit_arg) es (start xs) = Some s"
  shows "(limit_arg = None \<longrightarrow> pending s \<le> 200)
       \<and> (\<forall>n. 0 < n \<and> limit_arg = Some (Number (of_nat n)) \<longrightarrow> pending s \<le> n)
       \<and> (main s = Resolved \<longrightarrow> items s = [] \<and> list_all (\<lambda>st. st = Removed) (tasks s))"
proof -
  have a: "pending s \<le> 200" if "limit_arg = None"
  proof -
    from that have "\<forall>n \<ge> 200. length_reaches n (limit_or_default limit_arg)"
      by (simp add: limit_or_default_def)
    with pending_capped [OF assms, of 200] show ?thesis
      by simp
  qed
  have b: "pending s \<le> n" if "0 < n \<and> limit_arg = Some (Number (of_nat n))" for n
  proof -
    from that have "0 < n" and "\<forall>m \<ge> n. length_reaches m (limit_or_default limit_arg)"
      by (simp_all add: limit_or_default_def)
    with pending_capped [OF assms, of n] show ?thesis
      by simp
  qed
  have c: "items s = [] \<and> list_all (\<lambda>st. st = Removed) (tasks s)" if r: "main s = Resolved"
  proof -
    from invariants_exec [OF conc_inv_start assms, of 0] have "conc_inv s"
      by blast
    with r have "items s = []" and "live s = {}"
      by (auto simp: conc_inv_def)
    then show ?thesis
      by (auto simp: live_def list_all_length)
  qed
  from a b c show ?thesis
    by blast
qed

theorem concurrent_bound_witness:
  "exec (limit_or_default (Some (Number 2))) three_items_run (start [''a.html'', ''b.html'', ''c.html'']) =
     Some \<lparr>items = [], tasks = [Removed, Removed, Removed], executing = [], main = Resolved\<rparr>
   \<and> map_option pending (exec (limit_or_default None) [Next, Next] (start [''a.html'', ''b.html''])) = Some 2
   \<and> pending \<lparr>items = ([] :: string list), tasks = [Removed, Removed, Removed], executing = [],
          main = Resolved\<rparr> \<le> 2"
proof -
  have run: "exec (limit_or_default (Some (Number (of_nat 2)))) three_items_run
      (start [''a.html'', ''b.html'', ''c.html'']) =
     Some \<lparr>items = [], tasks = [Removed, Removed, Removed], executing = [], main = Resolved\<rparr>"
    by (simp add: three_items_run_def limit_or_default_def start_def splice_out_def Let_def)
  have two: "map_option pending (exec (limit_or_default None) [Next, Next] (start [''a.html'', ''b.html''])) = Some 2"
    by (simp add: limit_or_default_def start_def pending_def Let_def)
  from concurrent_bound [OF run]
  have "pending \<lparr>items = ([] :: string list), tasks = [Removed, Removed, Removed], executing = [],
          main = Resolved\<rparr> \<le> 2"
    by simp
  with run two show ?thesis
    by simp
qed

text \<open>
  The limit is meant as a cap, a whole number of at least one. For other numbers the
  loop still starts an invocation before it compares: with 1.5 two invocations are
  pending, with 0 one is, and with \<open>NaN\<close> the loop never waits.
\<close>

lemma concurrent_other_limits:
  "map_option pending (exec (limit_or_default (Some (Number (3 / 2)))) [Next, Next] (start [''a'', ''b'', ''c''])) = Some 2"
  "map_option pending (exec (limit_or_default (Some (Number 0))) [Next] (start [''a'', ''b'', ''c''])) = Some 1"
  "map_option pending (exec (limit_or_default (Some NaN)) [Next, Next, Next] (start [''a'', ''b'', ''c''])) = Some 3"
  by (simp_all add: limit_or_default_def start_def pending_def Let_def)

end
